theory Spec2Isabelle
  imports Main "HOL-Library.List_Lexorder" "HOL-Library.Product_Lexorder"
begin

section \<open>Data model\<close>

text \<open>
  The module pages through a mongoose model with keyset cursors. JavaScript objects
  whose key enumeration order matters (sort specifications, index hints, cursors,
  stored documents) are association lists in enumeration order; \<open>ob[k]\<close> is
  \<open>map_of ob k\<close>, with \<open>None\<close> for \<open>undefined\<close>. Field values are integers.
  Callbacks \<open>done(err)\<close> and \<open>done(null, ...)\<close> are the two sides of a sum.
\<close>

type_synonym field = string
type_synonym spec = "(field \<times> int) list"
type_synonym doc = "(field \<times> int) list"
type_synonym cursor = "(field \<times> int option) list"

text \<open>
  \<open>Failure\<close> is an error value handed over by a collaborator (validator, store,
  \<open>utils.visibles\<close>) and passed on unchanged; \<open>TypeError\<close> is the exception
  JavaScript throws when a property of \<open>undefined\<close> is read.
\<close>

datatype error = Failure string | TypeError

record 'q search =
  s_query :: 'q
  s_sort :: spec
  s_count :: int
  s_cursor :: "cursor option"
  s_direction :: "int option"
  s_fields :: "spec option"

record 'q ctx =
  validated :: bool
  search :: "'q search"
  queried :: 'q

record 'q link =
  l_query :: 'q
  l_sort :: spec
  l_cursor :: cursor
  l_direction :: int

record 'q paging =
  p_last :: "'q link option"
  p_next :: "'q link option"

text \<open>The \<open>options\<close> object given to \<open>setOptions\<close>, and the whole store query.\<close>

record options =
  o_min :: "cursor option"
  o_max :: "cursor option"

record 'q request =
  r_query :: 'q
  r_sort :: spec
  r_select :: "spec option"
  r_limit :: int
  r_hint :: spec
  r_options :: options

text \<open>
  The collaborators that are not part of the module: the \<open>validators\<close> table (a
  validator may rewrite the context it is given), the mongoose model \<open>ctx.model\<close>,
  \<open>utils.json\<close> and \<open>utils.visibles\<close>.
\<close>

record 'q env =
  validators :: "string \<Rightarrow> 'q ctx \<Rightarrow> error + 'q ctx"
  model :: "'q request \<Rightarrow> error + doc list"
  json :: "doc \<Rightarrow> doc"
  visibles :: "'q ctx \<Rightarrow> doc \<Rightarrow> error + doc"

section \<open>Exported helpers\<close>

text \<open>\<open>exports.invert\<close>: a clone with every value multiplied by \<open>-1\<close>.\<close>

definition invert :: "spec \<Rightarrow> spec" where
  "invert ob = map (\<lambda>(key, v). (key, v * (- 1))) ob"

text \<open>\<open>exports.first\<close>: the first enumerated key, \<open>null\<close> for an empty object.\<close>

definition first :: "('k \<times> 'v) list \<Rightarrow> 'k option" where
  "first ob = (case ob of [] \<Rightarrow> None | (key, v) # rest \<Rightarrow> Some key)"

text \<open>
  \<open>exports.cursor\<close>: one entry per field of the index, holding \<open>o[field]\<close>. When
  \<open>o\<close> is \<open>undefined\<close> the first iteration throws; with no field nothing is read.
\<close>

definition cursor :: "spec \<Rightarrow> doc option \<Rightarrow> error + cursor" where
  "cursor index ob =
     (case index of
        [] \<Rightarrow> Inr []
      | x # xs \<Rightarrow>
          (case ob of
             None \<Rightarrow> Inl TypeError
           | Some d \<Rightarrow> Inr (map (\<lambda>(field, v). (field, map_of d field)) index)))"

text \<open>\<open>validate(name, ctx, done)\<close>: a validated context skips its validator.\<close>

definition validate :: "'q env \<Rightarrow> string \<Rightarrow> 'q ctx \<Rightarrow> error + 'q ctx" where
  "validate env name c = (if validated c then Inr c else validators env name c)"

section \<open>The body of find\<close>

text \<open>
  \<open>sort[exports.first(sort)]\<close>: the value under the first key; \<open>sort[null]\<close> of an
  object without keys is \<open>undefined\<close>.
\<close>

definition primary :: "spec \<Rightarrow> int option" where
  "primary sort' = (case first sort' of None \<Rightarrow> None | Some key \<Rightarrow> map_of sort' key)"

text \<open>
  The direction block (index.js 232-243, part_000 184-195, the same text). The local
  variable \<open>invert\<close> is the field \<open>inv\<close>; \<open>search.direction || order\<close> falls back to
  \<open>order\<close> when the direction is missing or \<open>0\<close>.
\<close>

record resolved =
  order :: "int option"
  natural :: bool
  hint :: spec
  inv :: bool
  sorter :: spec

definition resolve :: "'q search \<Rightarrow> resolved" where
  "resolve s =
     (let sort' = s_sort s;
          order = primary sort';
          direction = (case s_direction s of
                         None \<Rightarrow> order
                       | Some d \<Rightarrow> if d = 0 then order else Some d);
          natural = (direction = Some 1)
      in if order = Some 1
         then (let hint = sort'; invert' = \<not> natural
               in \<lparr>order = order, natural = natural, hint = hint, inv = invert',
                   sorter = (if invert' then invert sort' else sort')\<rparr>)
         else (let hint = invert sort'; invert' = natural
               in \<lparr>order = order, natural = natural, hint = hint, inv = invert',
                   sorter = (if invert' then hint else sort')\<rparr>))"

text \<open>The options block (index.js 248-255, part_000 196-203).\<close>

definition bounds :: "cursor option \<Rightarrow> bool \<Rightarrow> options" where
  "bounds c nat' =
     (case c of
        None \<Rightarrow> \<lparr>o_min = None, o_max = None\<rparr>
      | Some cur \<Rightarrow>
          if nat' then \<lparr>o_min = Some cur, o_max = None\<rparr>
          else \<lparr>o_min = None, o_max = Some cur\<rparr>)"

text \<open>
  \<open>search.count + 1\<close> (index.js 231, part_000 183) is a sum of doubles: the double
  nearest to the exact sum, and of two equally near ones the even one. The count is an
  integer that a double holds. Every integer up to \<open>2 ^ 53\<close> in absolute value is a
  double; beyond, the doubles with \<open>w\<close> binary digits are \<open>2 ^ (w - 53)\<close> apart.
  \<open>oo.length === count\<close> compares the array length with that sum.
\<close>

fun width :: "nat \<Rightarrow> nat" where
  "width n = (if n = 0 then 0 else Suc (width (n div 2)))"

declare width.simps [simp del]

definition nearest :: "int \<Rightarrow> int" where
  "nearest m =
     (if \<bar>m\<bar> \<le> 2 ^ 53 then m
      else (let u = 2 ^ (width (nat \<bar>m\<bar>) - 53); q = m div u; r = m mod u
            in if 2 * r < u then q * u
               else if u < 2 * r then (q + 1) * u
               else if even q then q * u else (q + 1) * u))"

text \<open>
  The query chain \<open>find(query).sort(sorter).select(fields).limit(count).hint(hint)
  .setOptions(options)\<close> (index.js 273-278, part_000 205-210), where \<open>count\<close> is
  the sum \<open>search.count + 1\<close>. The projection is the one thing the two files choose
  differently.
\<close>

definition store_query :: "spec option \<Rightarrow> 'q search \<Rightarrow> 'q request" where
  "store_query sel s =
     (let r = resolve s
      in \<lparr>r_query = s_query s, r_sort = sorter r, r_select = sel,
          r_limit = nearest (s_count s + 1), r_hint = hint r,
          r_options = bounds (s_cursor s) (natural r)\<rparr>)"

text \<open>\<open>oo.pop()\<close> returns and removes the last element; \<open>oo[oo.length - 1]\<close> reads it.\<close>

definition pop :: "'a list \<Rightarrow> 'a option \<times> 'a list" where
  "pop xs = (if xs = [] then (None, []) else (Some (last xs), butlast xs))"

definition at_end :: "'a list \<Rightarrow> 'a option" where
  "at_end xs = (if xs = [] then None else Some (last xs))"

text \<open>
  The link block of the store callback (index.js 283-320, part_000 215-252): the
  result is \<open>(left, right, oo)\<close>. The two files differ in the query they put into a
  link (\<open>ctx.queried\<close> in index.js, \<open>search.query\<close> in part_000), the parameter \<open>q\<close>.
\<close>

definition scan :: "'q \<Rightarrow> 'q search \<Rightarrow> resolved \<Rightarrow> doc list
    \<Rightarrow> error + ('q link option \<times> 'q link option \<times> doc list)" where
  "scan q s r oo =
     (let count = nearest (s_count s + 1); sort' = s_sort s
      in if natural r then
           (case (if int (length oo) = count
                  then (case cursor (hint r) (fst (pop oo)) of
                          Inl e \<Rightarrow> Inl e
                        | Inr c \<Rightarrow> Inr (Some \<lparr>l_query = q, l_sort = sort', l_cursor = c,
                                              l_direction = 1\<rparr>, snd (pop oo)))
                  else Inr (None, oo)) of
              Inl e \<Rightarrow> Inl e
            | Inr (right, oo') \<Rightarrow>
                Inr (case s_cursor s of
                       None \<Rightarrow> None
                     | Some c \<Rightarrow> Some \<lparr>l_query = q, l_sort = sort', l_cursor = c,
                                        l_direction = - 1\<rparr>,
                     right, oo'))
         else
           (let right = (case s_cursor s of
                           None \<Rightarrow> None
                         | Some c \<Rightarrow> Some \<lparr>l_query = q, l_sort = sort', l_cursor = c,
                                            l_direction = 1\<rparr>)
            in if int (length oo) = count
               then (let oo' = snd (pop oo)
                     in case cursor (hint r) (at_end oo') of
                          Inl e \<Rightarrow> Inl e
                        | Inr c \<Rightarrow> Inr (Some \<lparr>l_query = q, l_sort = sort', l_cursor = c,
                                              l_direction = - 1\<rparr>, right, oo'))
               else Inr (None, right, oo)))"

text \<open>The placement block (index.js 321-330, part_000 253-262).\<close>

definition place :: "resolved \<Rightarrow> 'q link option \<times> 'q link option \<times> doc list
    \<Rightarrow> doc list \<times> 'q paging" where
  "place r t =
     (case t of (left, right, oo) \<Rightarrow>
        (if inv r then rev oo else oo,
         if order r = Some 1 then \<lparr>p_last = left, p_next = right\<rparr>
         else \<lparr>p_last = right, p_next = left\<rparr>))"

definition assemble :: "'q \<Rightarrow> 'q search \<Rightarrow> resolved \<Rightarrow> doc list
    \<Rightarrow> error + doc list \<times> 'q paging" where
  "assemble q s r oo =
     (case scan q s r oo of Inl e \<Rightarrow> Inl e | Inr t \<Rightarrow> Inr (place r t))"

text \<open>
  \<open>find\<close> of part_000. The first component of the result lists the queries sent to
  the store, the second is what the caller receives.
\<close>

definition find_p0 :: "'q env \<Rightarrow> 'q ctx
    \<Rightarrow> 'q request list \<times> (error + doc list \<times> 'q paging)" where
  "find_p0 env c0 =
     (case validate env ''find'' c0 of
        Inl err \<Rightarrow> ([], Inl err)
      | Inr c \<Rightarrow>
          (let s = search c; r = resolve s;
               rq = store_query (s_fields s) s
           in ([rq],
               case model env rq of
                 Inl err \<Rightarrow> Inl err
               | Inr oo \<Rightarrow> assemble (s_query s) s r oo)))"

text \<open>
  \<open>find\<close> of index.js adds three things: the projection gets \<open>visibility: 1\<close>
  (an assignment to the cloned \<open>fields\<close>: an existing key keeps its place, a new one
  goes last), each record goes through \<open>filter\<close>, \<open>utils.json\<close> and
  \<open>utils.visibles\<close> in sequence, the first error ending the call, and links carry
  \<open>ctx.queried\<close>.
\<close>

fun assign :: "('k \<times> 'v) list \<Rightarrow> 'k \<Rightarrow> 'v \<Rightarrow> ('k \<times> 'v) list" where
  "assign [] k v = [(k, v)]"
| "assign ((k', v') # rest) k v =
     (if k' = k then (k, v) # rest else (k', v') # assign rest k v)"

definition truthy :: "int option \<Rightarrow> bool" where
  "truthy v = (case v of None \<Rightarrow> False | Some n \<Rightarrow> n \<noteq> 0)"

definition with_visibility :: "spec option \<Rightarrow> spec option" where
  "with_visibility fields' =
     (case fields' of None \<Rightarrow> None | Some fs \<Rightarrow> Some (assign fs ''visibility'' 1))"

definition filter_fields :: "spec option \<Rightarrow> doc \<Rightarrow> doc" where
  "filter_fields fields' ob =
     (case fields' of
        None \<Rightarrow> ob
      | Some fs \<Rightarrow>
          if truthy (map_of fs ''visibility'') then ob
          else filter (\<lambda>(field, v). truthy (map_of fs field)) ob)"

fun eachSeries :: "('a \<Rightarrow> error + 'b) \<Rightarrow> 'a list \<Rightarrow> error + 'b list" where
  "eachSeries f [] = Inr []"
| "eachSeries f (x # xs) =
     (case f x of
        Inl err \<Rightarrow> Inl err
      | Inr y \<Rightarrow> (case eachSeries f xs of Inl err \<Rightarrow> Inl err | Inr ys \<Rightarrow> Inr (y # ys)))"

definition find_idx :: "'q env \<Rightarrow> 'q ctx
    \<Rightarrow> 'q request list \<times> (error + doc list \<times> 'q paging)" where
  "find_idx env c0 =
     (case validate env ''find'' c0 of
        Inl err \<Rightarrow> ([], Inl err)
      | Inr c \<Rightarrow>
          (let s = search c; r = resolve s;
               fields' = with_visibility (s_fields s);
               rq = store_query fields' s
           in ([rq],
               case model env rq of
                 Inl err \<Rightarrow> Inl err
               | Inr oo \<Rightarrow>
                   (case assemble (queried c) s r oo of
                      Inl e \<Rightarrow> Inl e
                    | Inr (oo', pg) \<Rightarrow>
                        (case eachSeries
                                (\<lambda>ob. visibles env c (filter_fields fields' (json env ob))) oo' of
                           Inl err \<Rightarrow> Inl err
                         | Inr ooo \<Rightarrow> Inr (ooo, pg))))))"

section \<open>The backing store\<close>

text \<open>
  The backing store is MongoDB behind mongoose; the module only reaches it through the
  query chain above. Its model here has the capabilities that chain uses: a filter, a
  sort by an ordered field list, an index hint, a min and a max bound keyed by the
  hint's fields, a row limit and a projection. The bounds are read in the order of the
  hinted index, and as MongoDB reads them: \<open>min\<close> admits the boundary key and
  \<open>max\<close> does not. A sort or hint with an order other than \<open>1\<close> and \<open>-1\<close> and a
  bound whose fields are not those of the hint are refused; \<open>limit(0)\<close> is no limit
  and a negative limit counts as its absolute value. What a projection keeps of a
  document is left to the store.
\<close>

text \<open>
  The place of a document in an index: field by field, a missing value before every
  present one, a descending field negated. Keys are compared as lists, lexicographically.
\<close>

definition enc :: "int \<Rightarrow> int option \<Rightarrow> int \<times> int" where
  "enc dir v = (case v of None \<Rightarrow> (0, 0) | Some x \<Rightarrow> (dir, dir * x))"

definition skey :: "spec \<Rightarrow> doc \<Rightarrow> (int \<times> int) list" where
  "skey ix d = map (\<lambda>(field, dir). enc dir (map_of d field)) ix"

definition ckey :: "spec \<Rightarrow> cursor \<Rightarrow> (int \<times> int) list" where
  "ckey ix c =
     map (\<lambda>(field, dir). enc dir (case map_of c field of None \<Rightarrow> None | Some v \<Rightarrow> v)) ix"

definition valid_spec :: "spec \<Rightarrow> bool" where
  "valid_spec ix = list_all (\<lambda>(field, dir). \<bar>dir\<bar> = 1) ix"

definition valid_bound :: "spec \<Rightarrow> cursor option \<Rightarrow> bool" where
  "valid_bound ix b = (case b of None \<Rightarrow> True | Some c \<Rightarrow> map fst c = map fst ix)"

definition admits :: "spec \<Rightarrow> options \<Rightarrow> doc \<Rightarrow> bool" where
  "admits ix opts d =
     ((case o_min opts of None \<Rightarrow> True | Some c \<Rightarrow> ckey ix c \<le> skey ix d)
      \<and> (case o_max opts of None \<Rightarrow> True | Some c \<Rightarrow> skey ix d < ckey ix c))"

definition limit :: "int \<Rightarrow> 'a list \<Rightarrow> 'a list" where
  "limit n xs = (if n = 0 then xs else take (nat \<bar>n\<bar>) xs)"

record 'q store =
  docs :: "doc list"
  matches :: "'q \<Rightarrow> doc \<Rightarrow> bool"
  project :: "spec \<Rightarrow> doc \<Rightarrow> doc"

definition exec :: "'q store \<Rightarrow> 'q request \<Rightarrow> error + doc list" where
  "exec st rq =
     (if \<not> valid_spec (r_sort rq) \<or> \<not> valid_spec (r_hint rq)
      then Inl (Failure ''bad sort specification'')
      else if \<not> valid_bound (r_hint rq) (o_min (r_options rq))
              \<or> \<not> valid_bound (r_hint rq) (o_max (r_options rq))
      then Inl (Failure ''bad bound'')
      else
        (let found = filter (\<lambda>d. matches st (r_query rq) d
                                  \<and> admits (r_hint rq) (r_options rq) d) (docs st);
             rows = limit (r_limit rq) (sort_key (skey (r_sort rq)) found)
         in Inr (case r_select rq of None \<Rightarrow> rows | Some fs \<Rightarrow> map (project st fs) rows)))"

section \<open>Following links\<close>

text \<open>
  The request held in a link: the link's query, sort, cursor and direction, with the
  count and the projection of the request that produced the link. \<open>ctx.queried\<close>, the
  query as the caller sent it, is the link's query too.
\<close>

definition follow :: "'q ctx \<Rightarrow> 'q link \<Rightarrow> 'q ctx" where
  "follow c l =
     c\<lparr>search := (search c)\<lparr>s_query := l_query l, s_sort := l_sort l,
                              s_cursor := Some (l_cursor l),
                              s_direction := Some (l_direction l)\<rparr>,
       queried := l_query l\<rparr>"

text \<open>The request of a context again, at another cursor and direction.\<close>

definition resume :: "'q ctx \<Rightarrow> cursor option \<Rightarrow> int option \<Rightarrow> 'q ctx" where
  "resume c cu di = c\<lparr>search := (search c)\<lparr>s_cursor := cu, s_direction := di\<rparr>\<rparr>"

text \<open>
  Paging forward until \<open>next\<close> is \<open>null\<close>, collecting the records of every page. The
  first argument bounds the number of pages fetched; \<open>None\<close> means the bound was
  reached before the walk ended.
\<close>

fun walk :: "('q ctx \<Rightarrow> error + doc list \<times> 'q paging) \<Rightarrow> nat \<Rightarrow> 'q ctx
    \<Rightarrow> (error + doc list) option" where
  "walk page 0 c = None"
| "walk page (Suc n) c =
     (case page c of
        Inl e \<Rightarrow> Some (Inl e)
      | Inr (recs, pg) \<Rightarrow>
          (case p_next pg of
             None \<Rightarrow> Some (Inr recs)
           | Some l \<Rightarrow>
               (case walk page n (follow c l) of
                  None \<Rightarrow> None
                | Some (Inl e) \<Rightarrow> Some (Inl e)
                | Some (Inr rest) \<Rightarrow> Some (Inr (recs @ rest)))))"

text \<open>A page whose links carry another query.\<close>

definition relink :: "'q \<Rightarrow> 'q paging \<Rightarrow> 'q paging" where
  "relink q pg =
     \<lparr>p_last = map_option (\<lambda>l. l\<lparr>l_query := q\<rparr>) (p_last pg),
      p_next = map_option (\<lambda>l. l\<lparr>l_query := q\<rparr>) (p_next pg)\<rparr>"

section \<open>Example data\<close>

text \<open>
  Five stored documents whose \<open>field\<close> values are 1 to 5, a query that asks for a
  least \<open>field\<close> value, collaborators that accept and return everything unchanged,
  and a store that answers every query with the same rows.
\<close>

definition item :: "int \<Rightarrow> doc" where
  "item n = [(''_id'', 100 + n), (''field'', n)]"

definition five :: "int store" where
  "five = \<lparr>docs = map item [3, 1, 5, 2, 4],
           matches = (\<lambda>q d. case map_of d ''field'' of None \<Rightarrow> False | Some v \<Rightarrow> q \<le> v),
           project = (\<lambda>fs d. d)\<rparr>"

definition plain :: "int env" where
  "plain = \<lparr>validators = (\<lambda>name c. Inr c), model = exec five, json = (\<lambda>d. d),
            visibles = (\<lambda>c d. Inr d)\<rparr>"

definition canned :: "doc list \<Rightarrow> int env" where
  "canned rows = \<lparr>validators = (\<lambda>name c. Inr c), model = (\<lambda>rq. Inr rows),
                  json = (\<lambda>d. d), visibles = (\<lambda>c d. Inr d)\<rparr>"

definition ask :: "spec \<Rightarrow> int \<Rightarrow> cursor option \<Rightarrow> int option \<Rightarrow> int ctx" where
  "ask srt n cur dir =
     \<lparr>validated = True,
      search = \<lparr>s_query = 0, s_sort = srt, s_count = n, s_cursor = cur,
                s_direction = dir, s_fields = None\<rparr>,
      queried = 0\<rparr>"

text \<open>
  A store in which two documents share their \<open>field\<close> value, and the collaborators
  of \<open>plain\<close> around it.
\<close>

definition twin :: "int \<Rightarrow> int \<Rightarrow> doc" where
  "twin i n = [(''_id'', i), (''field'', n)]"

definition twins :: "int store" where
  "twins = \<lparr>docs = [twin 1 1, twin 2 2, twin 3 2, twin 4 3],
            matches = (\<lambda>q d. case map_of d ''field'' of None \<Rightarrow> False | Some v \<Rightarrow> q \<le> v),
            project = (\<lambda>fs d. d)\<rparr>"

definition plain_twins :: "int env" where
  "plain_twins = \<lparr>validators = (\<lambda>name c. Inr c), model = exec twins, json = (\<lambda>d. d),
                  visibles = (\<lambda>c d. Inr d)\<rparr>"

text \<open>A link of the example: direction and the \<open>field\<close> value of its cursor.\<close>

definition towards :: "int \<Rightarrow> int \<Rightarrow> int link" where
  "towards dir n =
     \<lparr>l_query = 0, l_sort = [(''field'', 1)], l_cursor = [(''field'', Some n)],
      l_direction = dir\<rparr>"

section \<open>The direction block\<close>

text \<open>
  C4, as the code has it: \<open>natural\<close> says that the direction is \<open>+1\<close>, the direction
  being the primary field's order when the request has none (or \<open>0\<close>). The hint is the
  sort when the primary order is \<open>+1\<close> and the sort negated field by field otherwise,
  whatever the direction. The sorter is the sort when \<open>natural\<close> agrees with the primary
  order being \<open>+1\<close>, and the negated sort, tie-break field included, when it does not;
  that disagreement is the \<open>invert\<close> flag.
\<close>

theorem resolve_direction:
  "natural (resolve s) =
     ((case s_direction s of None \<Rightarrow> primary (s_sort s)
       | Some d \<Rightarrow> if d = 0 then primary (s_sort s) else Some d) = Some 1)
   \<and> hint (resolve s) = (if primary (s_sort s) = Some 1 then s_sort s else invert (s_sort s))
   \<and> sorter (resolve s) =
       (if natural (resolve s) = (primary (s_sort s) = Some 1) then s_sort s
        else invert (s_sort s))
   \<and> inv (resolve s) = (natural (resolve s) \<noteq> (primary (s_sort s) = Some 1))
   \<and> order (resolve s) = primary (s_sort s)"
  by (simp add: resolve_def Let_def)

text \<open>
  C4 as the spec words it fails twice. An ascending sort read backwards (direction
  \<open>-1\<close>) differs from its primary order, yet the hint is the sort and not its negation.
  A descending sort with no direction agrees with its primary order, yet \<open>natural\<close> is
  false and the hint is the negated sort.
\<close>

theorem resolve_counterexample:
  "primary [(''price'', 1), (''_id'', 1)] = Some 1
   \<and> hint (resolve \<lparr>s_query = (), s_sort = [(''price'', 1), (''_id'', 1)], s_count = 2,
         s_cursor = None, s_direction = Some (- 1), s_fields = None\<rparr>)
       \<noteq> invert [(''price'', 1), (''_id'', 1)]
   \<and> primary [(''price'', - 1), (''_id'', - 1)] = Some (- 1)
   \<and> \<not> natural (resolve \<lparr>s_query = (), s_sort = [(''price'', - 1), (''_id'', - 1)],
         s_count = 2, s_cursor = None, s_direction = None, s_fields = None\<rparr>)
   \<and> hint (resolve \<lparr>s_query = (), s_sort = [(''price'', - 1), (''_id'', - 1)], s_count = 2,
         s_cursor = None, s_direction = None, s_fields = None\<rparr>)
       \<noteq> [(''price'', - 1), (''_id'', - 1)]"
  by (simp add: resolve_def Let_def primary_def first_def invert_def)

section \<open>Sums of doubles\<close>

lemma width_0: "width 0 = 0" by (subst width.simps) simp
lemma width_pos: "0 < n \<Longrightarrow> width n = Suc (width (n div 2))" by (subst width.simps) simp

lemma width_bounds: "0 < n \<Longrightarrow> 2 ^ (width n - 1) \<le> n \<and> n < 2 ^ width n"
proof (induction n rule: less_induct)
  case (less n)
  show ?case
  proof (cases "n div 2 = 0")
    case True
    with less.prems have n: "n = 1" by (simp add: div_eq_0_iff)
    have "width (Suc 0) = Suc 0" by (simp add: width_pos width_0)
    with n show ?thesis by simp
  next
    case False
    then have pos: "0 < n div 2" by simp
    have lt: "n div 2 < n" using less.prems by simp
    from less.IH [OF lt pos]
    have ih: "2 ^ (width (n div 2) - 1) \<le> n div 2" "n div 2 < 2 ^ width (n div 2)"
      by simp_all
    obtain k where k: "width (n div 2) = Suc k"
      using pos by (simp add: width_pos)
    have eq: "width n = Suc (Suc k)" using less.prems k by (simp add: width_pos)
    from ih(1) k have lo: "2 * 2 ^ k \<le> n" by simp
    from ih(2) k have hi: "n < 2 * (2 * 2 ^ k)" by simp
    note lo hi
    then show ?thesis by (simp add: eq)
  qed
qed

lemma nearest_exact: "\<bar>m\<bar> \<le> 2 ^ 53 \<Longrightarrow> nearest m = m"
  by (simp add: nearest_def)

lemma spacing:
  assumes "2 ^ 53 < \<bar>m\<bar>"
  obtains d where "width (nat \<bar>m\<bar>) - 53 = Suc d" and "2 ^ 52 * (2::int) ^ Suc d \<le> \<bar>m\<bar>"
proof -
  let ?w = "width (nat \<bar>m\<bar>)"
  from assms have pos: "0 < nat \<bar>m\<bar>" by simp
  note b = width_bounds [OF pos]
  from b have "int (nat \<bar>m\<bar>) < int (2 ^ ?w)" by (simp only: of_nat_less_iff)
  then have up: "\<bar>m\<bar> < 2 ^ ?w" by simp
  from up assms have *: "(2::int) ^ 53 < 2 ^ ?w" by (rule less_trans [rotated])
  have "53 < ?w" by (rule power_less_imp_less_exp [OF _ *]) simp
  then obtain d where d: "?w = 54 + d" using le_Suc_ex [of 54 ?w] by auto
  from b have "int (2 ^ (?w - 1)) \<le> int (nat \<bar>m\<bar>)" by (simp only: of_nat_le_iff)
  then have "(2::int) ^ (53 + d) \<le> \<bar>m\<bar>" by (simp add: d)
  then have "2 ^ 52 * (2::int) ^ Suc d \<le> \<bar>m\<bar>" by (simp only: power_add power_Suc) simp
  moreover have "?w - 53 = Suc d" by (simp add: d)
  ultimately show thesis by (rule that [rotated])
qed

lemma nearest_large:
  assumes "2 ^ 53 < m"
  shows "2 \<le> nearest m"
proof -
  from assms have big: "2 ^ 53 < \<bar>m\<bar>" by simp
  then obtain d where d: "width (nat \<bar>m\<bar>) - 53 = Suc d"
    and lo: "2 ^ 52 * (2::int) ^ Suc d \<le> \<bar>m\<bar>" by (rule spacing)
  let ?u = "(2::int) ^ Suc d"
  have u: "2 \<le> ?u" by simp
  from lo assms have "2 ^ 52 * ?u \<le> m" by simp
  then have "(2 ^ 52 * ?u) div ?u \<le> m div ?u" by (rule zdiv_mono1) simp
  then have q: "1 \<le> m div ?u" by simp
  have a: "?u \<le> m div ?u * ?u"
    using mult_right_mono [of 1 "m div ?u" ?u] q by simp
  have b: "?u \<le> (m div ?u + 1) * ?u"
    using mult_right_mono [of 1 "m div ?u + 1" ?u] q by simp
  have "nearest m = m div ?u * ?u \<or> nearest m = (m div ?u + 1) * ?u"
    using big by (simp only: nearest_def Let_def d) (simp only: not_le [symmetric] if_False, metis)
  with a b u show ?thesis by linarith
qed

lemma nearest_small:
  assumes "m < - (2 ^ 53)"
  shows "nearest m < 0"
proof -
  from assms have big: "2 ^ 53 < \<bar>m\<bar>" by simp
  then obtain d where d: "width (nat \<bar>m\<bar>) - 53 = Suc d"
    and lo: "2 ^ 52 * (2::int) ^ Suc d \<le> \<bar>m\<bar>" by (rule spacing)
  let ?u = "(2::int) ^ Suc d"
  have u: "0 < ?u" by simp
  from lo assms have "m \<le> (- (2 ^ 52)) * ?u" by simp
  then have "m div ?u \<le> ((- (2 ^ 52)) * ?u) div ?u" by (rule zdiv_mono1) simp
  moreover have "((- (2 ^ 52)) * ?u) div ?u = - (2 ^ 52)"
    by (rule nonzero_mult_div_cancel_right) simp
  ultimately have "m div ?u \<le> - (2 ^ 52)" by (simp only:)
  then have q: "m div ?u \<le> - 2" by simp
  have a: "m div ?u * ?u < 0"
    using mult_neg_pos [of "m div ?u" ?u] q by simp
  have b: "(m div ?u + 1) * ?u < 0"
    using mult_neg_pos [of "m div ?u + 1" ?u] q by simp
  have "nearest m = m div ?u * ?u \<or> nearest m = (m div ?u + 1) * ?u"
    using big by (simp only: nearest_def Let_def d) (simp only: not_le [symmetric] if_False, metis)
  with a b show ?thesis by linarith
qed

lemma nearest_ge2: "2 \<le> m \<Longrightarrow> 2 \<le> nearest m"
proof (cases "2 ^ 53 < m")
  case True
  then show ?thesis by (rule nearest_large)
next
  case False
  assume "2 \<le> m"
  with False have "\<bar>m\<bar> \<le> 2 ^ 53" by simp
  with \<open>2 \<le> m\<close> show ?thesis by (simp only: nearest_exact)
qed

lemma nearest_0: "(nearest m = 0) = (m = 0)"
proof (cases "\<bar>m\<bar> \<le> 2 ^ 53")
  case True
  then show ?thesis by (simp only: nearest_exact)
next
  case False
  then have "2 ^ 53 < m \<or> m < - (2 ^ 53)" by linarith
  then have "nearest m \<noteq> 0" using nearest_large [of m] nearest_small [of m] by auto
  moreover from False have "m \<noteq> 0" by auto
  ultimately show ?thesis by simp
qed

lemma nearest_2_53: "nearest (2 ^ 53 + 1) = 2 ^ 53"
  by (simp add: nearest_def Let_def width_pos width_0)

section \<open>Unfolding find\<close>

lemma map_of_assign: "map_of (assign fs k v) k = Some v"
  by (induction fs) auto

lemma filter_fields_visibility: "filter_fields (with_visibility fs) ob = ob"
  by (cases fs) (simp_all add: with_visibility_def filter_fields_def truthy_def map_of_assign)

lemma cursor_Some: "cursor ix (Some d) = Inr (map (\<lambda>(field, v). (field, map_of d field)) ix)"
  by (cases ix) (simp_all add: cursor_def)

lemma find_idx_run:
  "validate env ''find'' c0 = Inr c \<Longrightarrow>
   find_idx env c0 =
     ([store_query (with_visibility (s_fields (search c))) (search c)],
      case model env (store_query (with_visibility (s_fields (search c))) (search c)) of
        Inl err \<Rightarrow> Inl err
      | Inr oo \<Rightarrow>
          (case scan (queried c) (search c) (resolve (search c)) oo of
             Inl e \<Rightarrow> Inl e
           | Inr t \<Rightarrow>
               (case eachSeries (\<lambda>ob. visibles env c (json env ob))
                       (fst (place (resolve (search c)) t)) of
                  Inl err \<Rightarrow> Inl err
                | Inr ooo \<Rightarrow> Inr (ooo, snd (place (resolve (search c)) t)))))"
  by (simp add: find_idx_def Let_def assemble_def filter_fields_visibility
      split: sum.splits prod.splits)

lemma find_p0_run:
  "validate env ''find'' c0 = Inr c \<Longrightarrow>
   find_p0 env c0 =
     ([store_query (s_fields (search c)) (search c)],
      case model env (store_query (s_fields (search c)) (search c)) of
        Inl err \<Rightarrow> Inl err
      | Inr oo \<Rightarrow>
          (case scan (s_query (search c)) (search c) (resolve (search c)) oo of
             Inl e \<Rightarrow> Inl e
           | Inr t \<Rightarrow> Inr (place (resolve (search c)) t)))"
  by (simp add: find_p0_def Let_def assemble_def split: sum.splits)

lemma eachSeries_length: "eachSeries f xs = Inr ys \<Longrightarrow> length ys = length xs"
  by (induction xs arbitrary: ys) (auto split: sum.splits)

lemma eachSeries_Inr: "eachSeries (\<lambda>x. Inr (f x)) xs = Inr (map f xs)"
  by (induction xs) auto

lemma scan_overflow:
  assumes "int (length oo) = nearest (s_count s + 1)" and "1 \<le> s_count s"
  shows "scan q s r oo =
     Inr (if natural r
          then (case s_cursor s of None \<Rightarrow> None
                | Some c \<Rightarrow> Some \<lparr>l_query = q, l_sort = s_sort s, l_cursor = c,
                                   l_direction = - 1\<rparr>,
                Some \<lparr>l_query = q, l_sort = s_sort s,
                      l_cursor = map (\<lambda>(field, v). (field, map_of (last oo) field)) (hint r),
                      l_direction = 1\<rparr>,
                butlast oo)
          else (Some \<lparr>l_query = q, l_sort = s_sort s,
                      l_cursor = map (\<lambda>(field, v). (field, map_of (last (butlast oo)) field))
                                   (hint r),
                      l_direction = - 1\<rparr>,
                case s_cursor s of None \<Rightarrow> None
                | Some c \<Rightarrow> Some \<lparr>l_query = q, l_sort = s_sort s, l_cursor = c,
                                   l_direction = 1\<rparr>,
                butlast oo))"
proof -
  from assms(2) have "2 \<le> nearest (s_count s + 1)" by (intro nearest_ge2) simp
  with assms(1) have "2 \<le> length oo" by linarith
  then have ne: "oo \<noteq> []" and ne': "butlast oo \<noteq> []"
    by (auto simp: butlast_conv_take)
  show ?thesis using assms(1) ne ne'
    by (simp add: scan_def Let_def pop_def at_end_def cursor_Some)
qed

lemma scan_short:
  assumes "int (length oo) \<noteq> nearest (s_count s + 1)"
  shows "scan q s r oo =
     Inr (if natural r
          then (case s_cursor s of None \<Rightarrow> None
                | Some c \<Rightarrow> Some \<lparr>l_query = q, l_sort = s_sort s, l_cursor = c,
                                   l_direction = - 1\<rparr>, None, oo)
          else (None, case s_cursor s of None \<Rightarrow> None
                | Some c \<Rightarrow> Some \<lparr>l_query = q, l_sort = s_sort s, l_cursor = c,
                                   l_direction = 1\<rparr>, oo))"
  using assms by (simp add: scan_def Let_def)

lemma scan_relink:
  "scan q s r oo =
     (case scan q' s r oo of
        Inl e \<Rightarrow> Inl e
      | Inr (left, right, oo') \<Rightarrow>
          Inr (map_option (\<lambda>l. l\<lparr>l_query := q\<rparr>) left,
               map_option (\<lambda>l. l\<lparr>l_query := q\<rparr>) right, oo'))"
  by (simp add: scan_def Let_def split: sum.splits option.splits)

lemma eachSeries_outcome:
  "(\<exists>ys. eachSeries f xs = Inr ys \<and> list_all2 (\<lambda>x y. f x = Inr y) xs ys)
   \<or> (\<exists>err. eachSeries f xs = Inl err \<and> (\<exists>x\<in>set xs. f x = Inl err))"
proof (induction xs)
  case Nil
  then show ?case by simp
next
  case (Cons x xs)
  show ?case
  proof (cases "f x")
    case (Inl e)
    then show ?thesis by auto
  next
    case (Inr y)
    from Cons.IH show ?thesis
    proof
      assume "\<exists>ys. eachSeries f xs = Inr ys \<and> list_all2 (\<lambda>x y. f x = Inr y) xs ys"
      then obtain ys where "eachSeries f xs = Inr ys" "list_all2 (\<lambda>x y. f x = Inr y) xs ys"
        by blast
      with Inr have "eachSeries f (x # xs) = Inr (y # ys)
          \<and> list_all2 (\<lambda>x y. f x = Inr y) (x # xs) (y # ys)" by simp
      then show ?thesis by blast
    next
      assume "\<exists>err. eachSeries f xs = Inl err \<and> (\<exists>x\<in>set xs. f x = Inl err)"
      then obtain err where "eachSeries f xs = Inl err" "\<exists>x\<in>set xs. f x = Inl err"
        by blast
      with Inr have "eachSeries f (x # xs) = Inl err \<and> (\<exists>z\<in>set (x # xs). f z = Inl err)"
        by simp
      then show ?thesis by blast
    qed
  qed
qed

lemma scan_answer:
  assumes "1 \<le> s_count s"
  shows "scan q s r oo =
     Inr (let more = (int (length oo) = nearest (s_count s + 1));
              behind = (case s_cursor s of None \<Rightarrow> None
                      | Some c \<Rightarrow> Some \<lparr>l_query = q, l_sort = s_sort s, l_cursor = c,
                                         l_direction = (if natural r then - 1 else 1)\<rparr>);
              ahead = (if more
                       then Some \<lparr>l_query = q, l_sort = s_sort s,
                                  l_cursor = map (\<lambda>(field, v). (field,
                                      map_of (if natural r then last oo else last (butlast oo))
                                        field)) (hint r),
                                  l_direction = (if natural r then 1 else - 1)\<rparr>
                       else None)
          in (if natural r then behind else ahead, if natural r then ahead else behind,
              if more then butlast oo else oo))"
proof (cases "int (length oo) = nearest (s_count s + 1)")
  case True
  from scan_overflow [OF True assms, of q r] True show ?thesis
    by (simp add: Let_def split: option.splits)
next
  case False
  from scan_short [OF False, of q r] False show ?thesis
    by (simp add: Let_def split: option.splits)
qed

lemma find_idx_outcome:
  assumes "validate env ''find'' c0 = Inr c"
    and "model env (store_query (with_visibility (s_fields (search c))) (search c)) = Inr oo"
    and "scan (queried c) (search c) (resolve (search c)) oo = Inr (left, right, rows)"
  shows "(\<exists>ooo. snd (find_idx env c0)
              = Inr (ooo, snd (place (resolve (search c)) (left, right, rows)))
            \<and> list_all2 (\<lambda>d ob. visibles env c (json env d) = Inr ob)
                 (fst (place (resolve (search c)) (left, right, rows))) ooo)
     \<or> (\<exists>err. snd (find_idx env c0) = Inl err
            \<and> (\<exists>d\<in>set (fst (place (resolve (search c)) (left, right, rows))).
                  visibles env c (json env d) = Inl err))"
  using eachSeries_outcome [of "\<lambda>ob. visibles env c (json env ob)"
      "fst (place (resolve (search c)) (left, right, rows))"]
  by (auto simp: find_idx_run [OF assms(1)] assms(2,3))

section \<open>The overflow row\<close>

text \<open>
  C3, as the code has it. When the store returns as many rows as the limit, which is the
  sum \<open>count + 1\<close>, (and \<open>count\<close> is at least 1) the last fetched row is dropped, so
  one record fewer than the limit comes back, in fetched order or reversed: \<open>count\<close>
  records whenever the sum is exact. In the natural direction the scan-forward link
  carries the hint-field values of the dropped row, with direction \<open>1\<close>. In the other
  direction it carries those of the last row that is kept, with direction \<open>-1\<close>. The
  link is \<open>next\<close> when \<open>natural\<close> agrees with the primary order being \<open>+1\<close>, and
  \<open>last\<close> otherwise.
\<close>

theorem overflow_row:
  assumes "validate env ''find'' c0 = Inr c"
    and "model env (store_query (with_visibility (s_fields (search c))) (search c)) = Inr oo"
    and "int (length oo) = nearest (s_count (search c) + 1)"
    and "1 \<le> s_count (search c)"
    and "snd (find_idx env c0) = Inr (ooo, pg)"
  shows "eachSeries (\<lambda>ob. visibles env c (json env ob))
           (if inv (resolve (search c)) then rev (butlast oo) else butlast oo) = Inr ooo
     \<and> int (length ooo) = nearest (s_count (search c) + 1) - 1
     \<and> (if natural (resolve (search c)) = (order (resolve (search c)) = Some 1)
         then p_next pg else p_last pg) =
        Some \<lparr>l_query = queried c, l_sort = s_sort (search c),
              l_cursor = map (\<lambda>(field, v). (field,
                                map_of (if natural (resolve (search c)) then last oo
                                        else last (butlast oo)) field))
                           (hint (resolve (search c))),
              l_direction = (if natural (resolve (search c)) then 1 else - 1)\<rparr>"
proof -
  let ?r = "resolve (search c)"
  let ?f = "\<lambda>ob. visibles env c (json env ob)"
  obtain t where t: "scan (queried c) (search c) ?r oo = Inr t"
    using scan_overflow [OF assms(3,4)] by blast
  from assms(2,5) t have run: "eachSeries ?f (fst (place ?r t)) = Inr ooo"
    and pg: "pg = snd (place ?r t)"
    by (auto simp: find_idx_run [OF assms(1)] split: sum.splits)
  have rows: "fst (place ?r t) = (if inv ?r then rev (butlast oo) else butlast oo)"
    using t scan_overflow [OF assms(3,4), of "queried c" ?r]
    by (auto simp: place_def split: if_splits)
  have len: "int (length ooo) = nearest (s_count (search c) + 1) - 1"
    using eachSeries_length [OF run] rows assms(3) nearest_ge2 [of "s_count (search c) + 1"]
      assms(4)
    by (auto split: if_splits)
  have lnk: "(if natural ?r = (order ?r = Some 1) then p_next pg else p_last pg) =
        Some \<lparr>l_query = queried c, l_sort = s_sort (search c),
              l_cursor = map (\<lambda>(field, v). (field,
                                map_of (if natural ?r then last oo else last (butlast oo)) field))
                           (hint ?r),
              l_direction = (if natural ?r then 1 else - 1)\<rparr>"
    using t scan_overflow [OF assms(3,4), of "queried c" ?r] pg
    by (auto simp: place_def split: if_splits)
  from run rows len lnk show ?thesis by simp
qed

theorem overflow_row_witness:
  "validate (canned [item 4, item 3, item 2]) ''find''
     (ask [(''field'', 1)] 2 (Some [(''field'', Some 5)]) (Some (- 1)))
     = Inr (ask [(''field'', 1)] 2 (Some [(''field'', Some 5)]) (Some (- 1)))
   \<and> int (length [item 4, item 3, item 2]) = nearest (2 + 1)
   \<and> snd (find_idx (canned [item 4, item 3, item 2])
             (ask [(''field'', 1)] 2 (Some [(''field'', Some 5)]) (Some (- 1)))) =
       Inr ([item 3, item 4],
            \<lparr>p_last = Some \<lparr>l_query = 0, l_sort = [(''field'', 1)],
                             l_cursor = [(''field'', Some 3)], l_direction = - 1\<rparr>,
             p_next = Some \<lparr>l_query = 0, l_sort = [(''field'', 1)],
                             l_cursor = [(''field'', Some 5)], l_direction = 1\<rparr>\<rparr>)"
proof -
  let ?c = "ask [(''field'', 1)] 2 (Some [(''field'', Some 5)]) (Some (- 1))"
  let ?e = "canned [item 4, item 3, item 2]"
  have v: "validate ?e ''find'' ?c = Inr ?c" by (simp add: validate_def ask_def)
  have m: "model ?e (store_query (with_visibility (s_fields (search ?c))) (search ?c))
      = Inr [item 4, item 3, item 2]"
    by (simp add: canned_def)
  have l: "int (length [item 4, item 3, item 2]) = nearest (s_count (search ?c) + 1)"
    by (simp add: ask_def nearest_def)
  have k: "1 \<le> s_count (search ?c)" by (simp add: ask_def)
  have r: "snd (find_idx ?e ?c) =
       Inr ([item 3, item 4],
            \<lparr>p_last = Some \<lparr>l_query = 0, l_sort = [(''field'', 1)],
                             l_cursor = [(''field'', Some 3)], l_direction = - 1\<rparr>,
             p_next = Some \<lparr>l_query = 0, l_sort = [(''field'', 1)],
                             l_cursor = [(''field'', Some 5)], l_direction = 1\<rparr>\<rparr>)"
    by (simp add: find_idx_def validate_def store_query_def nearest_def assemble_def with_visibility_def
        filter_fields_def canned_def ask_def resolve_def Let_def primary_def first_def
        invert_def scan_def pop_def at_end_def cursor_def place_def item_def)
  from overflow_row [OF v m l k r] v r show ?thesis by (simp add: nearest_def)
qed

text \<open>
  C3 as the spec words it fails in the direction that is not natural: the store returned the
  three rows 4, 3, 2 for a count of 2, row 2 was dropped, and the scan-forward link
  (here \<open>last\<close>) holds the value of row 3, not that of the dropped row.
\<close>

theorem overflow_row_counterexample:
  "\<not> natural (resolve (search (ask [(''field'', 1)] 2 (Some [(''field'', Some 5)]) (Some (- 1)))))
   \<and> snd (find_idx (canned [item 4, item 3, item 2])
             (ask [(''field'', 1)] 2 (Some [(''field'', Some 5)]) (Some (- 1)))) =
       Inr ([item 3, item 4],
            \<lparr>p_last = Some \<lparr>l_query = 0, l_sort = [(''field'', 1)],
                             l_cursor = [(''field'', Some 3)], l_direction = - 1\<rparr>,
             p_next = Some \<lparr>l_query = 0, l_sort = [(''field'', 1)],
                             l_cursor = [(''field'', Some 5)], l_direction = 1\<rparr>\<rparr>)
   \<and> cursor [(''field'', 1)] (at_end [item 4, item 3, item 2]) = Inr [(''field'', Some 2)]"
  by (simp add: find_idx_def validate_def store_query_def nearest_def assemble_def with_visibility_def
      filter_fields_def canned_def ask_def resolve_def Let_def primary_def first_def
      invert_def scan_def pop_def at_end_def cursor_def place_def item_def)

section \<open>The link back\<close>

text \<open>
  C6. Take a call that passes validation, was given a cursor, has a count of at least 1
  and gets an answer from the store. Its link block then always yields its three values,
  no exception is thrown: the link back is made of \<open>ctx.queried\<close> (the query kept on
  the context as the caller's), the request's sort and the request's cursor itself, with
  direction \<open>-1\<close> after a natural scan and \<open>1\<close> after the other; the link forth is
  there when the store returned the overflow row; \<open>left\<close> is the link back after a
  natural scan and the link forth otherwise, \<open>right\<close> is the other one. The call ends
  in one of two ways. Either it returns a page, in which \<open>right\<close> is the \<open>next\<close> link
  and \<open>left\<close> the \<open>last\<close> (previous) link when the primary order is \<open>+1\<close>, and
  \<open>right\<close> is \<open>last\<close> and \<open>left\<close> is \<open>next\<close> when it is not. Or
  \<open>utils.visibles\<close> fails on one of the records kept, and its error is the result.
\<close>

theorem backward_link:
  assumes "validate env ''find'' c0 = Inr c"
    and "s_cursor (search c) = Some cur"
    and "model env (store_query (with_visibility (s_fields (search c))) (search c)) = Inr oo"
    and "1 \<le> s_count (search c)"
  shows "let r = resolve (search c);
             more = (int (length oo) = nearest (s_count (search c) + 1));
             rows = (if more then butlast oo else oo);
             kept = (if inv r then rev rows else rows);
             behind = Some \<lparr>l_query = queried c, l_sort = s_sort (search c), l_cursor = cur,
                          l_direction = (if natural r then - 1 else 1)\<rparr>;
             ahead = (if more
                      then Some \<lparr>l_query = queried c, l_sort = s_sort (search c),
                                 l_cursor = map (\<lambda>(field, v). (field,
                                     map_of (if natural r then last oo else last (butlast oo))
                                       field)) (hint r),
                                 l_direction = (if natural r then 1 else - 1)\<rparr>
                      else None);
             left = (if natural r then behind else ahead);
             right = (if natural r then ahead else behind);
             pg = (if order r = Some 1 then \<lparr>p_last = left, p_next = right\<rparr>
                   else \<lparr>p_last = right, p_next = left\<rparr>)
         in scan (queried c) (search c) r oo = Inr (left, right, rows)
            \<and> ((\<exists>ooo. snd (find_idx env c0) = Inr (ooo, pg))
               \<or> (\<exists>err. snd (find_idx env c0) = Inl err
                      \<and> (\<exists>d\<in>set kept. visibles env c (json env d) = Inl err)))"
proof -
  let ?r = "resolve (search c)"
  let ?more = "int (length oo) = nearest (s_count (search c) + 1)"
  let ?rows = "if ?more then butlast oo else oo"
  let ?behind = "Some \<lparr>l_query = queried c, l_sort = s_sort (search c), l_cursor = cur,
                          l_direction = (if natural ?r then - 1 else 1)\<rparr>"
  let ?ahead = "if ?more
                then Some \<lparr>l_query = queried c, l_sort = s_sort (search c),
                           l_cursor = map (\<lambda>(field, v). (field,
                               map_of (if natural ?r then last oo else last (butlast oo))
                                 field)) (hint ?r),
                           l_direction = (if natural ?r then 1 else - 1)\<rparr>
                else None"
  let ?left = "if natural ?r then ?behind else ?ahead"
  let ?right = "if natural ?r then ?ahead else ?behind"
  let ?kept = "if inv ?r then rev ?rows else ?rows"
  let ?pg = "if order ?r = Some 1 then \<lparr>p_last = ?left, p_next = ?right\<rparr>
             else \<lparr>p_last = ?right, p_next = ?left\<rparr>"
  have t: "scan (queried c) (search c) ?r oo = Inr (?left, ?right, ?rows)"
    using scan_answer [OF assms(4), of "queried c" ?r oo] assms(2) by (simp add: Let_def)
  have p: "fst (place ?r (?left, ?right, ?rows)) = ?kept"
    "snd (place ?r (?left, ?right, ?rows)) = ?pg"
    by (simp_all add: place_def)
  from find_idx_outcome [OF assms(1,3) t]
  have "(\<exists>ooo. snd (find_idx env c0) = Inr (ooo, ?pg))
      \<or> (\<exists>err. snd (find_idx env c0) = Inl err
             \<and> (\<exists>d\<in>set ?kept. visibles env c (json env d) = Inl err))"
    unfolding p by blast
  with t show ?thesis unfolding Let_def by (rule conjI)
qed

theorem backward_link_witness:
  "validate (canned [item 3, item 4, item 5]) ''find''
     (ask [(''field'', 1)] 2 (Some [(''field'', Some 3)]) (Some 1))
     = Inr (ask [(''field'', 1)] 2 (Some [(''field'', Some 3)]) (Some 1))
   \<and> natural (resolve (search (ask [(''field'', 1)] 2 (Some [(''field'', Some 3)]) (Some 1))))
   \<and> scan 0 (search (ask [(''field'', 1)] 2 (Some [(''field'', Some 3)]) (Some 1)))
         (resolve (search (ask [(''field'', 1)] 2 (Some [(''field'', Some 3)]) (Some 1))))
         [item 3, item 4, item 5]
       = Inr (Some (towards (- 1) 3), Some (towards 1 5), [item 3, item 4])
   \<and> snd (find_idx (canned [item 3, item 4, item 5])
             (ask [(''field'', 1)] 2 (Some [(''field'', Some 3)]) (Some 1))) =
       Inr ([item 3, item 4], \<lparr>p_last = Some (towards (- 1) 3), p_next = Some (towards 1 5)\<rparr>)
   \<and> validate (canned [item 4, item 3, item 2]) ''find''
     (ask [(''field'', 1)] 2 (Some [(''field'', Some 5)]) (Some (- 1)))
     = Inr (ask [(''field'', 1)] 2 (Some [(''field'', Some 5)]) (Some (- 1)))
   \<and> \<not> natural (resolve (search (ask [(''field'', 1)] 2 (Some [(''field'', Some 5)]) (Some (- 1)))))
   \<and> scan 0 (search (ask [(''field'', 1)] 2 (Some [(''field'', Some 5)]) (Some (- 1))))
         (resolve (search (ask [(''field'', 1)] 2 (Some [(''field'', Some 5)]) (Some (- 1)))))
         [item 4, item 3, item 2]
       = Inr (Some (towards (- 1) 3), Some (towards 1 5), [item 4, item 3])
   \<and> snd (find_idx (canned [item 4, item 3, item 2])
             (ask [(''field'', 1)] 2 (Some [(''field'', Some 5)]) (Some (- 1)))) =
       Inr ([item 3, item 4], \<lparr>p_last = Some (towards (- 1) 3), p_next = Some (towards 1 5)\<rparr>)"
proof -
  let ?c = "ask [(''field'', 1)] 2 (Some [(''field'', Some 3)]) (Some 1)"
  let ?e = "canned [item 3, item 4, item 5]"
  let ?d = "ask [(''field'', 1)] 2 (Some [(''field'', Some 5)]) (Some (- 1))"
  let ?f = "canned [item 4, item 3, item 2]"
  have v: "validate ?e ''find'' ?c = Inr ?c" "validate ?f ''find'' ?d = Inr ?d"
    by (simp_all add: validate_def ask_def)
  have cu: "s_cursor (search ?c) = Some [(''field'', Some 3)]"
    "s_cursor (search ?d) = Some [(''field'', Some 5)]" by (simp_all add: ask_def)
  have m: "model ?e (store_query (with_visibility (s_fields (search ?c))) (search ?c))
      = Inr [item 3, item 4, item 5]"
    "model ?f (store_query (with_visibility (s_fields (search ?d))) (search ?d))
      = Inr [item 4, item 3, item 2]"
    by (simp_all add: canned_def)
  have k: "1 \<le> s_count (search ?c)" "1 \<le> s_count (search ?d)" by (simp_all add: ask_def)
  have res: "resolve (search ?c) = \<lparr>order = Some 1, natural = True, hint = [(''field'', 1)],
      inv = False, sorter = [(''field'', 1)]\<rparr>"
    "resolve (search ?d) = \<lparr>order = Some 1, natural = False, hint = [(''field'', 1)],
      inv = True, sorter = [(''field'', - 1)]\<rparr>"
    by (simp_all add: ask_def resolve_def Let_def primary_def first_def invert_def)
  have fl: "queried ?c = 0" "s_sort (search ?c) = [(''field'', 1)]" "s_count (search ?c) = 2"
    "queried ?d = 0" "s_sort (search ?d) = [(''field'', 1)]" "s_count (search ?d) = 2"
    by (simp_all add: ask_def)
  have vis: "\<And>rows. visibles (canned rows) = (\<lambda>c d. Inr d)"
    "\<And>rows. json (canned rows) = (\<lambda>d. d)"
    by (simp_all add: canned_def)
  have it: "\<And>n. map_of (item n) ''field'' = Some n" by (simp add: item_def)
  have n: "nearest 3 = 3" by (simp add: nearest_def)
  from backward_link [OF v(1) cu(1) m(1) k(1)]
  have a: "scan 0 (search ?c) (resolve (search ?c)) [item 3, item 4, item 5]
       = Inr (Some (towards (- 1) 3), Some (towards 1 5), [item 3, item 4])"
    and b: "\<exists>ooo. snd (find_idx ?e ?c)
       = Inr (ooo, \<lparr>p_last = Some (towards (- 1) 3), p_next = Some (towards 1 5)\<rparr>)"
    by (simp_all add: Let_def res fl cu vis n towards_def it)
  from backward_link [OF v(2) cu(2) m(2) k(2)]
  have a': "scan 0 (search ?d) (resolve (search ?d)) [item 4, item 3, item 2]
       = Inr (Some (towards (- 1) 3), Some (towards 1 5), [item 4, item 3])"
    and b': "\<exists>ooo. snd (find_idx ?f ?d)
       = Inr (ooo, \<lparr>p_last = Some (towards (- 1) 3), p_next = Some (towards 1 5)\<rparr>)"
    by (simp_all add: Let_def res fl cu vis n towards_def it)
  have r: "fst (projr (snd (find_idx ?e ?c))) = [item 3, item 4]"
    "fst (projr (snd (find_idx ?f ?d))) = [item 3, item 4]"
    by (simp_all add: find_idx_def validate_def store_query_def nearest_def assemble_def
        with_visibility_def filter_fields_def canned_def ask_def resolve_def Let_def primary_def
        first_def invert_def scan_def pop_def at_end_def cursor_def place_def item_def)
  from b r(1) have p: "snd (find_idx ?e ?c) =
       Inr ([item 3, item 4], \<lparr>p_last = Some (towards (- 1) 3), p_next = Some (towards 1 5)\<rparr>)"
    by auto
  from b' r(2) have p': "snd (find_idx ?f ?d) =
       Inr ([item 3, item 4], \<lparr>p_last = Some (towards (- 1) 3), p_next = Some (towards 1 5)\<rparr>)"
    by auto
  have na: "natural (resolve (search ?c))" "\<not> natural (resolve (search ?d))"
    by (simp_all add: res)
  from v na a p a' p' show ?thesis by blast
qed

section \<open>The empty page\<close>

text \<open>
  C8, as the code has it. When the store finds no row (and \<open>count\<close> is not \<open>-1\<close>, so
  that \<open>0\<close> is not the overflow length) the call succeeds with no record. Without a
  cursor both links are \<open>null\<close>. With a cursor the one link is the link back: it is
  \<open>last\<close> (previous), and \<open>next\<close> is \<open>null\<close>, when the scan ran in the sort's own
  direction; it is \<open>next\<close>, and \<open>last\<close> is \<open>null\<close>, when the scan ran against it.
\<close>

theorem empty_page:
  assumes "validate env ''find'' c0 = Inr c"
    and "model env (store_query (with_visibility (s_fields (search c))) (search c)) = Inr []"
    and "s_count (search c) \<noteq> - 1"
  shows "snd (find_idx env c0) =
     Inr ([],
          if natural (resolve (search c)) = (order (resolve (search c)) = Some 1)
          then \<lparr>p_last = map_option (\<lambda>cur. \<lparr>l_query = queried c, l_sort = s_sort (search c),
                     l_cursor = cur,
                     l_direction = (if natural (resolve (search c)) then - 1 else 1)\<rparr>)
                   (s_cursor (search c)),
                p_next = None\<rparr>
          else \<lparr>p_last = None,
                p_next = map_option (\<lambda>cur. \<lparr>l_query = queried c, l_sort = s_sort (search c),
                     l_cursor = cur,
                     l_direction = (if natural (resolve (search c)) then - 1 else 1)\<rparr>)
                   (s_cursor (search c))\<rparr>)"
proof -
  have "int (length ([]::doc list)) \<noteq> nearest (s_count (search c) + 1)"
    using assms(3) nearest_0 [of "s_count (search c) + 1"] by simp
  from scan_short [OF this] assms(2) show ?thesis
    by (auto simp: find_idx_run [OF assms(1)] place_def split: option.splits)
qed

theorem empty_page_witness:
  "validate (canned []) ''find'' (ask [(''field'', 1)] 2 (Some [(''field'', Some 9)]) (Some 1))
     = Inr (ask [(''field'', 1)] 2 (Some [(''field'', Some 9)]) (Some 1))
   \<and> model (canned []) (store_query None
        (search (ask [(''field'', 1)] 2 (Some [(''field'', Some 9)]) (Some 1)))) = Inr []
   \<and> snd (find_idx (canned []) (ask [(''field'', 1)] 2 (Some [(''field'', Some 9)]) (Some 1))) =
       Inr ([], \<lparr>p_last = Some \<lparr>l_query = 0, l_sort = [(''field'', 1)],
                                  l_cursor = [(''field'', Some 9)], l_direction = - 1\<rparr>,
                  p_next = None\<rparr>)"
proof -
  let ?c = "ask [(''field'', 1)] 2 (Some [(''field'', Some 9)]) (Some 1)"
  have v: "validate (canned []) ''find'' ?c = Inr ?c" by (simp add: validate_def ask_def)
  have m: "model (canned []) (store_query (with_visibility (s_fields (search ?c))) (search ?c))
      = Inr []"
    by (simp add: canned_def)
  have k: "s_count (search ?c) \<noteq> - 1" by (simp add: ask_def)
  have res: "natural (resolve (search ?c))" "order (resolve (search ?c)) = Some 1"
    by (simp_all add: ask_def resolve_def Let_def primary_def first_def)
  from empty_page [OF v m k] v m res show ?thesis
    by (simp add: ask_def with_visibility_def)
qed

text \<open>
  C8 as the spec words it fails for a scan against the sort: an ascending sort read
  backwards from the cursor finds nothing, and the page has \<open>next\<close> set to the link
  back and no previous link.
\<close>

theorem empty_page_counterexample:
  "model (canned []) (store_query None
        (search (ask [(''field'', 1)] 2 (Some [(''field'', Some 1)]) (Some (- 1))))) = Inr []
   \<and> snd (find_idx (canned []) (ask [(''field'', 1)] 2 (Some [(''field'', Some 1)]) (Some (- 1)))) =
       Inr ([], \<lparr>p_last = None,
                  p_next = Some \<lparr>l_query = 0, l_sort = [(''field'', 1)],
                                  l_cursor = [(''field'', Some 1)], l_direction = 1\<rparr>\<rparr>)"
  by (simp add: find_idx_def validate_def store_query_def nearest_def assemble_def with_visibility_def
      filter_fields_def canned_def ask_def resolve_def Let_def primary_def first_def
      invert_def scan_def pop_def at_end_def cursor_def place_def)

section \<open>The count is not checked\<close>

text \<open>
  C9, as the code has it. \<open>find\<close> never looks at the count before it queries the
  store. A validated context always sends one query, whatever the count; its limit is
  the sum \<open>count + 1\<close> as JavaScript adds, the double nearest to it, which is
  \<open>count + 1\<close> itself as long as that is at most \<open>2 ^ 53\<close> in absolute value. No
  query is sent exactly when the context is not validated and its \<open>find\<close>
  validator, a collaborator, fails; the caller then gets that validator's error as it
  is.
\<close>

theorem count_unchecked:
  "(validated c \<longrightarrow>
      fst (find_idx env c) = [store_query (with_visibility (s_fields (search c))) (search c)]
      \<and> r_limit (store_query (with_visibility (s_fields (search c))) (search c))
          = nearest (s_count (search c) + 1)
      \<and> (\<bar>s_count (search c) + 1\<bar> \<le> 2 ^ 53 \<longrightarrow>
           r_limit (store_query (with_visibility (s_fields (search c))) (search c))
             = s_count (search c) + 1))
   \<and> (fst (find_idx env c) = []) = (\<not> validated c \<and> isl (validators env ''find'' c))
   \<and> (fst (find_idx env c) = [] \<longrightarrow> snd (find_idx env c) = Inl (projl (validators env ''find'' c)))"
proof -
  have "r_limit (store_query (with_visibility (s_fields (search c))) (search c))
          = nearest (s_count (search c) + 1)"
    by (simp add: store_query_def Let_def)
  then show ?thesis
    by (auto simp: find_idx_def validate_def Let_def nearest_exact split: sum.splits)
qed

theorem count_unchecked_witness:
  "validated (ask [(''field'', 1)] 0 None None)
   \<and> map r_limit (fst (find_idx (canned []) (ask [(''field'', 1)] 0 None None))) = [1]
   \<and> validated (ask [(''field'', 1)] (2 ^ 53) None None)
   \<and> map r_limit (fst (find_idx (canned []) (ask [(''field'', 1)] (2 ^ 53) None None)))
       = [2 ^ 53]
   \<and> fst (find_idx (canned [])
        ((ask [(''field'', 1)] 0 None None)\<lparr>validated := False\<rparr>)) \<noteq> []
   \<and> fst (find_idx ((canned [])\<lparr>validators := (\<lambda>name c. Inl (Failure ''count''))\<rparr>)
        ((ask [(''field'', 1)] 0 None None)\<lparr>validated := False\<rparr>)) = []
   \<and> snd (find_idx ((canned [])\<lparr>validators := (\<lambda>name c. Inl (Failure ''count''))\<rparr>)
        ((ask [(''field'', 1)] 0 None None)\<lparr>validated := False\<rparr>)) = Inl (Failure ''count'')"
proof -
  let ?c = "ask [(''field'', 1)] 0 None None"
  let ?b = "ask [(''field'', 1)] (2 ^ 53) None None"
  let ?c' = "?c\<lparr>validated := False\<rparr>"
  let ?e' = "(canned [])\<lparr>validators := (\<lambda>name c. Inl (Failure ''count''))\<rparr>"
  have v: "validated ?c" "validated ?b" by (simp_all add: ask_def)
  have nv: "\<not> validated ?c'" by simp
  have a: "\<not> isl (validators (canned []) ''find'' ?c')" by (simp add: canned_def)
  have b: "isl (validators ?e' ''find'' ?c')" by simp
  have n: "s_count (search ?c) = 0" "s_count (search ?b) = 2 ^ 53" by (simp_all add: ask_def)
  have one: "map r_limit (fst (find_idx (canned []) ?c)) = [1]"
    using count_unchecked [of ?c "canned []"] v(1) by (simp add: n nearest_exact)
  have big: "map r_limit (fst (find_idx (canned []) ?b)) = [2 ^ 53]"
    using count_unchecked [of ?b "canned []"] v(2) by (simp only: n nearest_2_53) simp
  from count_unchecked [of ?c' "canned []"] count_unchecked [of ?c' ?e'] nv a b
  have rest: "fst (find_idx (canned []) ?c') \<noteq> []" "fst (find_idx ?e' ?c') = []"
    "snd (find_idx ?e' ?c') = Inl (Failure ''count'')"
    by simp_all
  from v one big rest show ?thesis by blast
qed

text \<open>
  C9 as the spec words it fails: a validated request with count \<open>0\<close> reaches the
  store with limit \<open>1\<close> and returns an empty page, not an error.
\<close>

theorem count_unchecked_counterexample:
  "s_count (search (ask [(''field'', 1)] 0 None None)) < 1
   \<and> find_idx (canned []) (ask [(''field'', 1)] 0 None None) =
       ([\<lparr>r_query = 0, r_sort = [(''field'', 1)], r_select = None, r_limit = 1,
          r_hint = [(''field'', 1)], r_options = \<lparr>o_min = None, o_max = None\<rparr>\<rparr>],
        Inr ([], \<lparr>p_last = None, p_next = None\<rparr>))"
  by (simp add: find_idx_def validate_def store_query_def nearest_def assemble_def with_visibility_def
      filter_fields_def canned_def ask_def resolve_def Let_def primary_def first_def
      invert_def scan_def pop_def at_end_def cursor_def place_def bounds_def)

section \<open>The two versions of find\<close>

text \<open>
  C10, as the code has it. On a context that passes validation, when the store answers both
  queries alike, the two versions send the same query up to the projection (index.js
  adds \<open>visibility\<close> to it), and index.js returns what part_000 returns after two
  changes: every record has gone through \<open>utils.json\<close> and \<open>utils.visibles\<close>, in
  the same order, the first error of \<open>utils.visibles\<close> becoming the result; and both
  links carry \<open>ctx.queried\<close> where part_000 has \<open>search.query\<close>. Sort, cursor and
  direction of the links are the same.
\<close>

theorem find_twice:
  assumes "validate env ''find'' c0 = Inr c"
    and "model env (store_query (with_visibility (s_fields (search c))) (search c))
         = model env (store_query (s_fields (search c)) (search c))"
  shows "fst (find_idx env c0) = map (\<lambda>rq. rq\<lparr>r_select := with_visibility (r_select rq)\<rparr>)
                                  (fst (find_p0 env c0))
     \<and> snd (find_idx env c0) =
        (case snd (find_p0 env c0) of
           Inl e \<Rightarrow> Inl e
         | Inr (oo, pg) \<Rightarrow>
             (case eachSeries (\<lambda>ob. visibles env c (json env ob)) oo of
                Inl e \<Rightarrow> Inl e
              | Inr ooo \<Rightarrow> Inr (ooo, relink (queried c) pg)))"
proof -
  have q: "fst (find_idx env c0) = map (\<lambda>rq. rq\<lparr>r_select := with_visibility (r_select rq)\<rparr>)
                                  (fst (find_p0 env c0))"
    by (simp add: find_idx_run [OF assms(1)] find_p0_run [OF assms(1)] store_query_def Let_def)
  have r: "snd (find_idx env c0) =
        (case snd (find_p0 env c0) of
           Inl e \<Rightarrow> Inl e
         | Inr (oo, pg) \<Rightarrow>
             (case eachSeries (\<lambda>ob. visibles env c (json env ob)) oo of
                Inl e \<Rightarrow> Inl e
              | Inr ooo \<Rightarrow> Inr (ooo, relink (queried c) pg)))"
    using assms(2)
    by (simp add: find_idx_run [OF assms(1)] find_p0_run [OF assms(1)]
        scan_relink [of "queried c" _ _ _ "s_query (search c)"] place_def relink_def
        split: sum.splits prod.splits)
  from q r show ?thesis by simp
qed

theorem find_twice_witness:
  "validate (canned [item 3, item 4, item 5]) ''find''
     ((ask [(''field'', 1)] 2 (Some [(''field'', Some 3)]) (Some 1))\<lparr>queried := 7\<rparr>)
     = Inr ((ask [(''field'', 1)] 2 (Some [(''field'', Some 3)]) (Some 1))\<lparr>queried := 7\<rparr>)
   \<and> snd (find_p0 (canned [item 3, item 4, item 5])
       ((ask [(''field'', 1)] 2 (Some [(''field'', Some 3)]) (Some 1))\<lparr>queried := 7\<rparr>)) =
       Inr ([item 3, item 4],
            \<lparr>p_last = Some \<lparr>l_query = 0, l_sort = [(''field'', 1)],
                             l_cursor = [(''field'', Some 3)], l_direction = - 1\<rparr>,
             p_next = Some \<lparr>l_query = 0, l_sort = [(''field'', 1)],
                             l_cursor = [(''field'', Some 5)], l_direction = 1\<rparr>\<rparr>)
   \<and> snd (find_idx (canned [item 3, item 4, item 5])
       ((ask [(''field'', 1)] 2 (Some [(''field'', Some 3)]) (Some 1))\<lparr>queried := 7\<rparr>)) =
       Inr ([item 3, item 4],
            \<lparr>p_last = Some \<lparr>l_query = 7, l_sort = [(''field'', 1)],
                             l_cursor = [(''field'', Some 3)], l_direction = - 1\<rparr>,
             p_next = Some \<lparr>l_query = 7, l_sort = [(''field'', 1)],
                             l_cursor = [(''field'', Some 5)], l_direction = 1\<rparr>\<rparr>)"
proof -
  let ?c = "(ask [(''field'', 1)] 2 (Some [(''field'', Some 3)]) (Some 1))\<lparr>queried := 7\<rparr>"
  let ?e = "canned [item 3, item 4, item 5]"
  have v: "validate ?e ''find'' ?c = Inr ?c" by (simp add: validate_def ask_def)
  have m: "model ?e (store_query (with_visibility (s_fields (search ?c))) (search ?c))
         = model ?e (store_query (s_fields (search ?c)) (search ?c))"
    by (simp add: canned_def)
  have p: "snd (find_p0 ?e ?c) =
       Inr ([item 3, item 4],
            \<lparr>p_last = Some \<lparr>l_query = 0, l_sort = [(''field'', 1)],
                             l_cursor = [(''field'', Some 3)], l_direction = - 1\<rparr>,
             p_next = Some \<lparr>l_query = 0, l_sort = [(''field'', 1)],
                             l_cursor = [(''field'', Some 5)], l_direction = 1\<rparr>\<rparr>)"
    by (simp add: find_p0_def validate_def store_query_def nearest_def assemble_def
        canned_def ask_def resolve_def Let_def primary_def first_def
        invert_def scan_def pop_def at_end_def cursor_def place_def item_def)
  have vis: "visibles ?e = (\<lambda>c d. Inr d)" "json ?e = (\<lambda>d. d)" "queried ?c = 7"
    by (simp_all add: canned_def)
  from find_twice [OF v m] v p show ?thesis
    by (simp add: vis relink_def)
qed

text \<open>
  C10 as the spec words it fails on the links: for one request and one store answer
  the link back of part_000 holds the query \<open>0\<close> of the request, that of index.js
  the query \<open>7\<close> kept on the context.
\<close>

theorem find_twice_counterexample:
  "map_option l_query (p_last (snd (projr (snd (find_p0 (canned [item 3, item 4, item 5])
       ((ask [(''field'', 1)] 2 (Some [(''field'', Some 3)]) (Some 1))\<lparr>queried := 7\<rparr>))))))
     = Some 0
   \<and> map_option l_query (p_last (snd (projr (snd (find_idx (canned [item 3, item 4, item 5])
       ((ask [(''field'', 1)] 2 (Some [(''field'', Some 3)]) (Some 1))\<lparr>queried := 7\<rparr>))))))
     = Some 7
   \<and> snd (find_idx (canned [item 3, item 4, item 5])
       ((ask [(''field'', 1)] 2 (Some [(''field'', Some 3)]) (Some 1))\<lparr>queried := 7\<rparr>))
     \<noteq> snd (find_p0 (canned [item 3, item 4, item 5])
       ((ask [(''field'', 1)] 2 (Some [(''field'', Some 3)]) (Some 1))\<lparr>queried := 7\<rparr>))"
  by (simp add: find_idx_def find_p0_def validate_def store_query_def nearest_def assemble_def
      with_visibility_def filter_fields_def canned_def ask_def resolve_def Let_def primary_def
      first_def invert_def scan_def pop_def at_end_def cursor_def place_def item_def)

section \<open>Index order and its inversion\<close>

lemma enc_negate: "enc (- dir) v = (- fst (enc dir v), - snd (enc dir v))"
  by (cases v) (simp_all add: enc_def)

lemma skey_invert:
  "skey (invert ix) d = map (\<lambda>p. (- fst p, - snd p)) (skey ix d)"
  by (induction ix) (auto simp: skey_def invert_def enc_negate)

lemma length_skey: "length (skey ix d) = length ix"
  by (simp add: skey_def)

lemma negate_less:
  fixes p q :: "int \<times> int"
  shows "((- fst p, - snd p) < (- fst q, - snd q)) = (q < p)"
  by (cases p; cases q) (auto simp: less_prod_def)

lemma negate_eq:
  fixes p q :: "int \<times> int"
  shows "((- fst p, - snd p) = (- fst q, - snd q)) = (q = p)"
  by (cases p; cases q) auto

lemma negate_list_less:
  fixes xs ys :: "(int \<times> int) list"
  assumes "length xs = length ys"
  shows "(map (\<lambda>p. (- fst p, - snd p)) xs < map (\<lambda>p. (- fst p, - snd p)) ys) = (ys < xs)"
  using assms
proof (induction xs ys rule: list_induct2)
  case Nil
  then show ?case by simp
next
  case (Cons x xs y ys)
  then show ?case
    using negate_less [of x y] negate_eq [of x y] by auto
qed

lemma negate_list_le:
  fixes xs ys :: "(int \<times> int) list"
  assumes "length xs = length ys"
  shows "(map (\<lambda>p. (- fst p, - snd p)) xs \<le> map (\<lambda>p. (- fst p, - snd p)) ys) = (ys \<le> xs)"
  using negate_list_less [OF assms [symmetric]] by (simp add: not_less [symmetric])

lemma skey_invert_le: "(skey (invert ix) a \<le> skey (invert ix) b) = (skey ix b \<le> skey ix a)"
  by (simp add: skey_invert negate_list_le length_skey)

lemma skey_invert_less: "(skey (invert ix) a < skey (invert ix) b) = (skey ix b < skey ix a)"
  by (simp add: skey_invert negate_list_less length_skey)

lemma sorted_invert_rev:
  "sorted (map (skey (invert ix)) xs) = sorted (map (skey ix) (rev xs))"
  by (simp add: sorted_map sorted_wrt_rev skey_invert_le sorted_wrt_map)

lemma sorter_resolve:
  "sorter (resolve s) = (if inv (resolve s) then invert (s_sort s) else s_sort s)"
  by (simp add: resolve_def Let_def)

lemma sorted_trim:
  fixes k :: "'a \<Rightarrow> 'b::linorder"
  shows "sorted (map k xs) \<Longrightarrow> sorted (map k (butlast xs))"
  by (simp add: map_butlast sorted_butlast)

section \<open>The order of the returned records\<close>

lemma list_all2_keys:
  assumes "list_all2 P xs ys" and "\<forall>x y. P x y \<longrightarrow> k y = k x"
  shows "map k ys = map k xs"
  using assms by (induction rule: list_all2_induct) auto

text \<open>
  C7. Take a call that passes validation, with a count of at least 1, whose store query
  is answered in the order of the sorter that was sent. The rows kept, that is the
  fetched rows without the overflow row, reversed when the \<open>invert\<close> flag is set and
  as they are when it is not, are then in the order of the request's own sort, whichever
  way the store scanned. The call ends in one of two ways. Either it returns a page
  whose records are, position by position, what \<open>utils.json\<close> and \<open>utils.visibles\<close>
  make of the rows kept; these records are themselves in the order of the sort when the
  two collaborators leave the sort fields as they are. Or \<open>utils.visibles\<close> fails on
  one of the rows kept, and its error is the result.
\<close>

theorem returned_order:
  assumes "validate env ''find'' c0 = Inr c"
    and "model env (store_query (with_visibility (s_fields (search c))) (search c)) = Inr oo"
    and "sorted (map (skey (sorter (resolve (search c)))) oo)"
    and "1 \<le> s_count (search c)"
  shows "let r = resolve (search c);
             rows = (if int (length oo) = nearest (s_count (search c) + 1) then butlast oo
                     else oo);
             kept = (if inv r then rev rows else rows)
         in sorted (map (skey (s_sort (search c))) kept)
            \<and> ((\<exists>ooo pg. snd (find_idx env c0) = Inr (ooo, pg)
                    \<and> list_all2 (\<lambda>d ob. visibles env c (json env d) = Inr ob) kept ooo
                    \<and> ((\<forall>d ob. visibles env c (json env d) = Inr ob \<longrightarrow>
                             skey (s_sort (search c)) ob = skey (s_sort (search c)) d) \<longrightarrow>
                         sorted (map (skey (s_sort (search c))) ooo)))
               \<or> (\<exists>err. snd (find_idx env c0) = Inl err
                      \<and> (\<exists>d\<in>set kept. visibles env c (json env d) = Inl err)))"
proof -
  let ?r = "resolve (search c)"
  let ?rows = "if int (length oo) = nearest (s_count (search c) + 1) then butlast oo else oo"
  let ?kept = "if inv ?r then rev ?rows else ?rows"
  let ?k = "skey (s_sort (search c))"
  from scan_answer [OF assms(4), of "queried c" ?r oo]
  obtain left right where t: "scan (queried c) (search c) ?r oo = Inr (left, right, ?rows)"
    by (simp add: Let_def)
  have p: "fst (place ?r (left, right, ?rows)) = ?kept" by (simp add: place_def)
  have st: "sorted (map (skey (sorter ?r)) ?rows)"
    using assms(3) by (simp add: sorted_trim)
  have so: "sorted (map ?k ?kept)"
  proof (cases "inv ?r")
    case True
    with st have "sorted (map (skey (invert (s_sort (search c)))) ?rows)"
      by (simp only: sorter_resolve [of "search c"] if_True)
    then have "sorted (map ?k (rev ?rows))"
      by (simp only: sorted_invert_rev)
    with True show ?thesis by (simp only: if_True)
  next
    case False
    with st have "sorted (map ?k ?rows)"
      by (simp only: sorter_resolve [of "search c"] if_False)
    with False show ?thesis by (simp only: if_False)
  qed
  from find_idx_outcome [OF assms(1,2) t]
  have "(\<exists>ooo pg. snd (find_idx env c0) = Inr (ooo, pg)
            \<and> list_all2 (\<lambda>d ob. visibles env c (json env d) = Inr ob) ?kept ooo
            \<and> ((\<forall>d ob. visibles env c (json env d) = Inr ob \<longrightarrow> ?k ob = ?k d) \<longrightarrow>
                 sorted (map ?k ooo)))
       \<or> (\<exists>err. snd (find_idx env c0) = Inl err
              \<and> (\<exists>d\<in>set ?kept. visibles env c (json env d) = Inl err))"
    unfolding p
  proof
    assume "\<exists>ooo. snd (find_idx env c0) = Inr (ooo, snd (place ?r (left, right, ?rows)))
        \<and> list_all2 (\<lambda>d ob. visibles env c (json env d) = Inr ob) ?kept ooo"
    then obtain ooo where a: "snd (find_idx env c0) = Inr (ooo, snd (place ?r (left, right, ?rows)))"
      and b: "list_all2 (\<lambda>d ob. visibles env c (json env d) = Inr ob) ?kept ooo"
      by blast
    have "(\<forall>d ob. visibles env c (json env d) = Inr ob \<longrightarrow> ?k ob = ?k d) \<longrightarrow>
                 sorted (map ?k ooo)"
    proof
      assume "\<forall>d ob. visibles env c (json env d) = Inr ob \<longrightarrow> ?k ob = ?k d"
      from list_all2_keys [OF b this] so show "sorted (map ?k ooo)" by (simp only:)
    qed
    with a b show ?thesis by blast
  next
    assume "\<exists>err. snd (find_idx env c0) = Inl err
        \<and> (\<exists>d\<in>set ?kept. visibles env c (json env d) = Inl err)"
    then show ?thesis by blast
  qed
  with so show ?thesis unfolding Let_def by (rule conjI)
qed

theorem returned_order_witness:
  "validate plain ''find'' (ask [(''field'', 1)] 2 (Some [(''field'', Some 3)]) (Some 1))
     = Inr (ask [(''field'', 1)] 2 (Some [(''field'', Some 3)]) (Some 1))
   \<and> \<not> inv (resolve (search (ask [(''field'', 1)] 2 (Some [(''field'', Some 3)]) (Some 1))))
   \<and> model plain (store_query None
        (search (ask [(''field'', 1)] 2 (Some [(''field'', Some 3)]) (Some 1))))
       = Inr [item 3, item 4, item 5]
   \<and> sorted (map (skey [(''field'', 1)]) [item 3, item 4, item 5])
   \<and> snd (find_idx plain (ask [(''field'', 1)] 2 (Some [(''field'', Some 3)]) (Some 1))) =
       Inr ([item 3, item 4], \<lparr>p_last = Some (towards (- 1) 3), p_next = Some (towards 1 5)\<rparr>)
   \<and> validate plain ''find'' (ask [(''field'', 1)] 2 (Some [(''field'', Some 5)]) (Some (- 1)))
     = Inr (ask [(''field'', 1)] 2 (Some [(''field'', Some 5)]) (Some (- 1)))
   \<and> inv (resolve (search (ask [(''field'', 1)] 2 (Some [(''field'', Some 5)]) (Some (- 1)))))
   \<and> model plain (store_query None
        (search (ask [(''field'', 1)] 2 (Some [(''field'', Some 5)]) (Some (- 1)))))
       = Inr [item 4, item 3, item 2]
   \<and> sorted (map (skey [(''field'', - 1)]) [item 4, item 3, item 2])
   \<and> snd (find_idx plain (ask [(''field'', 1)] 2 (Some [(''field'', Some 5)]) (Some (- 1)))) =
       Inr ([item 3, item 4], \<lparr>p_last = Some (towards (- 1) 3), p_next = Some (towards 1 5)\<rparr>)
   \<and> sorted (map (skey [(''field'', 1)]) [item 3, item 4])"
proof -
  let ?c = "ask [(''field'', 1)] 2 (Some [(''field'', Some 3)]) (Some 1)"
  let ?d = "ask [(''field'', 1)] 2 (Some [(''field'', Some 5)]) (Some (- 1))"
  have v: "validate plain ''find'' ?c = Inr ?c" "validate plain ''find'' ?d = Inr ?d"
    by (simp_all add: validate_def ask_def)
  have res: "resolve (search ?c) = \<lparr>order = Some 1, natural = True, hint = [(''field'', 1)],
      inv = False, sorter = [(''field'', 1)]\<rparr>"
    "resolve (search ?d) = \<lparr>order = Some 1, natural = False, hint = [(''field'', 1)],
      inv = True, sorter = [(''field'', - 1)]\<rparr>"
    by (simp_all add: ask_def resolve_def Let_def primary_def first_def invert_def)
  have m0: "model plain (store_query None (search ?c)) = Inr [item 3, item 4, item 5]"
    "model plain (store_query None (search ?d)) = Inr [item 4, item 3, item 2]"
    by (simp_all add: plain_def exec_def five_def store_query_def nearest_def ask_def
        resolve_def Let_def primary_def first_def invert_def valid_spec_def valid_bound_def
        bounds_def admits_def skey_def ckey_def enc_def item_def limit_def less_prod_def
        less_eq_prod_def)
  have nf: "with_visibility (s_fields (search ?c)) = None"
    "with_visibility (s_fields (search ?d)) = None"
    by (simp_all add: ask_def with_visibility_def)
  have m: "model plain (store_query (with_visibility (s_fields (search ?c))) (search ?c))
      = Inr [item 3, item 4, item 5]"
    "model plain (store_query (with_visibility (s_fields (search ?d))) (search ?d))
      = Inr [item 4, item 3, item 2]"
    using m0 by (simp_all only: nf)
  have so: "sorted (map (skey [(''field'', 1)]) [item 3, item 4, item 5])"
    "sorted (map (skey [(''field'', - 1)]) [item 4, item 3, item 2])"
    by (simp_all add: skey_def enc_def item_def less_eq_prod_def)
  have so': "sorted (map (skey (sorter (resolve (search ?c)))) [item 3, item 4, item 5])"
    "sorted (map (skey (sorter (resolve (search ?d)))) [item 4, item 3, item 2])"
    using so by (simp_all add: res)
  have k: "1 \<le> s_count (search ?c)" "1 \<le> s_count (search ?d)" by (simp_all add: ask_def)
  have fl: "s_sort (search ?c) = [(''field'', 1)]" "s_count (search ?c) = 2"
    "s_sort (search ?d) = [(''field'', 1)]" "s_count (search ?d) = 2"
    by (simp_all add: ask_def)
  have vis: "visibles plain = (\<lambda>c d. Inr d)" "json plain = (\<lambda>d. d)"
    by (simp_all add: plain_def)
  have n: "nearest 3 = 3" by (simp add: nearest_def)
  from returned_order [OF v(1) m(1) so'(1) k(1)]
  have a: "sorted (map (skey [(''field'', 1)]) [item 3, item 4])"
    and b: "\<exists>pg. snd (find_idx plain ?c) = Inr ([item 3, item 4], pg)"
    by (simp_all add: Let_def res fl vis n list_all2_Cons1)
  from returned_order [OF v(2) m(2) so'(2) k(2)]
  have b': "\<exists>pg. snd (find_idx plain ?d) = Inr ([item 3, item 4], pg)"
    by (simp add: Let_def res fl vis n list_all2_Cons1)
  have r: "snd (projr (snd (find_idx plain ?c)))
       = \<lparr>p_last = Some (towards (- 1) 3), p_next = Some (towards 1 5)\<rparr>"
    "snd (projr (snd (find_idx plain ?d)))
       = \<lparr>p_last = Some (towards (- 1) 3), p_next = Some (towards 1 5)\<rparr>"
    by (simp_all add: find_idx_def validate_def assemble_def with_visibility_def
        filter_fields_def scan_def pop_def at_end_def cursor_def place_def towards_def
        plain_def exec_def five_def store_query_def nearest_def ask_def resolve_def Let_def
        primary_def first_def invert_def valid_spec_def valid_bound_def bounds_def admits_def
        skey_def ckey_def enc_def item_def limit_def less_prod_def less_eq_prod_def)
  from b r(1) have p: "snd (find_idx plain ?c) =
       Inr ([item 3, item 4], \<lparr>p_last = Some (towards (- 1) 3), p_next = Some (towards 1 5)\<rparr>)"
    by auto
  from b' r(2) have p': "snd (find_idx plain ?d) =
       Inr ([item 3, item 4], \<lparr>p_last = Some (towards (- 1) 3), p_next = Some (towards 1 5)\<rparr>)"
    by auto
  have i: "\<not> inv (resolve (search ?c))" "inv (resolve (search ?d))" by (simp_all add: res)
  from v i m0 so p p' a show ?thesis by blast
qed

section \<open>The range bound\<close>

text \<open>
  C5, as the code has it. Without a cursor the query carries no bound. With a cursor and
  a natural scan the cursor is the \<open>min\<close> option, an inclusive lower bound in the order
  of the hint. With a cursor and a scan that is not natural the cursor is the \<open>max\<close>
  option, which the store reads as an exclusive upper bound: a document whose hint
  fields equal the cursor is not returned.
\<close>

theorem range_bound:
  "r_options (store_query sel s) =
     (case s_cursor s of
        None \<Rightarrow> \<lparr>o_min = None, o_max = None\<rparr>
      | Some cur \<Rightarrow>
          if natural (resolve s) then \<lparr>o_min = Some cur, o_max = None\<rparr>
          else \<lparr>o_min = None, o_max = Some cur\<rparr>)
   \<and> admits (r_hint (store_query sel s)) (r_options (store_query sel s)) d =
     (case s_cursor s of
        None \<Rightarrow> True
      | Some cur \<Rightarrow>
          if natural (resolve s) then ckey (hint (resolve s)) cur \<le> skey (hint (resolve s)) d
          else skey (hint (resolve s)) d < ckey (hint (resolve s)) cur)"
  by (simp add: store_query_def Let_def bounds_def admits_def split: option.splits)

text \<open>
  C5 as the spec words it fails on the upper bound: reading the five documents
  backwards from the cursor \<open>{field: 3}\<close>, the query carries the cursor as \<open>max\<close>,
  document 3 has exactly the cursor's key and is not admitted, and the page is 1, 2.
\<close>

theorem range_bound_counterexample:
  "s_cursor (search (ask [(''field'', 1)] 2 (Some [(''field'', Some 3)]) (Some (- 1))))
     = Some [(''field'', Some 3)]
   \<and> \<not> natural (resolve (search (ask [(''field'', 1)] 2 (Some [(''field'', Some 3)]) (Some (- 1)))))
   \<and> fst (find_idx plain (ask [(''field'', 1)] 2 (Some [(''field'', Some 3)]) (Some (- 1)))) =
       [\<lparr>r_query = 0, r_sort = [(''field'', - 1)], r_select = None, r_limit = 3,
         r_hint = [(''field'', 1)],
         r_options = \<lparr>o_min = None, o_max = Some [(''field'', Some 3)]\<rparr>\<rparr>]
   \<and> skey [(''field'', 1)] (item 3) = ckey [(''field'', 1)] [(''field'', Some 3)]
   \<and> \<not> admits [(''field'', 1)] \<lparr>o_min = None, o_max = Some [(''field'', Some 3)]\<rparr> (item 3)
   \<and> snd (find_idx plain (ask [(''field'', 1)] 2 (Some [(''field'', Some 3)]) (Some (- 1)))) =
       Inr ([item 1, item 2], \<lparr>p_last = None, p_next = Some (towards 1 3)\<rparr>)"
  by (simp add: find_idx_def validate_def assemble_def with_visibility_def filter_fields_def
      scan_def pop_def at_end_def cursor_def place_def towards_def
      plain_def exec_def five_def store_query_def nearest_def ask_def resolve_def Let_def
      primary_def first_def invert_def valid_spec_def valid_bound_def bounds_def admits_def
      skey_def ckey_def enc_def item_def limit_def less_prod_def less_eq_prod_def)

section \<open>Five records, two per page\<close>

text \<open>
  C2, as the code has it, on the store that holds the \<open>field\<close> values 1 to 5, with
  count 2 and the ascending sort on \<open>field\<close>, for both versions of \<open>find\<close>. Page 1 is
  1, 2 and its \<open>next\<close> cursor is \<open>{field: 3}\<close>, the value of the overflow row. Issuing
  that link gives page 2, which is 3, 4, with \<open>next\<close> cursor \<open>{field: 5}\<close> and a
  previous link (the cursor \<open>{field: 3}\<close> read backwards) whose request returns page 1
  exactly, records and links. Issuing the \<open>next\<close> link of page 2 gives page 3, which
  is 5, with no \<open>next\<close> link and a previous link whose request returns page 2 exactly.
\<close>

theorem five_by_two:
  "snd (find_idx plain (ask [(''field'', 1)] 2 None None)) =
     Inr ([item 1, item 2], \<lparr>p_last = None, p_next = Some (towards 1 3)\<rparr>)
   \<and> snd (find_idx plain (follow (ask [(''field'', 1)] 2 None None) (towards 1 3))) =
     Inr ([item 3, item 4], \<lparr>p_last = Some (towards (- 1) 3), p_next = Some (towards 1 5)\<rparr>)
   \<and> snd (find_idx plain
          (follow (follow (ask [(''field'', 1)] 2 None None) (towards 1 3)) (towards (- 1) 3))) =
     Inr ([item 1, item 2], \<lparr>p_last = None, p_next = Some (towards 1 3)\<rparr>)
   \<and> snd (find_idx plain
          (follow (follow (ask [(''field'', 1)] 2 None None) (towards 1 3)) (towards 1 5))) =
     Inr ([item 5], \<lparr>p_last = Some (towards (- 1) 5), p_next = None\<rparr>)
   \<and> snd (find_idx plain
          (follow (follow (follow (ask [(''field'', 1)] 2 None None) (towards 1 3))
             (towards 1 5)) (towards (- 1) 5))) =
     Inr ([item 3, item 4], \<lparr>p_last = Some (towards (- 1) 3), p_next = Some (towards 1 5)\<rparr>)
   \<and> snd (find_p0 plain (ask [(''field'', 1)] 2 None None)) =
     Inr ([item 1, item 2], \<lparr>p_last = None, p_next = Some (towards 1 3)\<rparr>)
   \<and> snd (find_p0 plain (follow (ask [(''field'', 1)] 2 None None) (towards 1 3))) =
     Inr ([item 3, item 4], \<lparr>p_last = Some (towards (- 1) 3), p_next = Some (towards 1 5)\<rparr>)
   \<and> snd (find_p0 plain
          (follow (follow (ask [(''field'', 1)] 2 None None) (towards 1 3)) (towards (- 1) 3))) =
     Inr ([item 1, item 2], \<lparr>p_last = None, p_next = Some (towards 1 3)\<rparr>)
   \<and> snd (find_p0 plain
          (follow (follow (ask [(''field'', 1)] 2 None None) (towards 1 3)) (towards 1 5))) =
     Inr ([item 5], \<lparr>p_last = Some (towards (- 1) 5), p_next = None\<rparr>)
   \<and> snd (find_p0 plain
          (follow (follow (follow (ask [(''field'', 1)] 2 None None) (towards 1 3))
             (towards 1 5)) (towards (- 1) 5))) =
     Inr ([item 3, item 4], \<lparr>p_last = Some (towards (- 1) 3), p_next = Some (towards 1 5)\<rparr>)"
  by (simp add: find_idx_def find_p0_def validate_def assemble_def with_visibility_def
      filter_fields_def scan_def pop_def at_end_def cursor_def place_def towards_def follow_def
      plain_def exec_def five_def store_query_def nearest_def ask_def resolve_def Let_def primary_def
      first_def invert_def valid_spec_def valid_bound_def bounds_def admits_def skey_def
      ckey_def enc_def item_def limit_def less_prod_def less_eq_prod_def)

text \<open>
  C2 as the spec words it fails on the cursors: the \<open>next\<close> cursor of page 1 holds 3,
  not 2, and that of page 2 holds 5, not 4.
\<close>

theorem five_by_two_counterexample:
  "map_option l_cursor (p_next (snd (projr (snd (find_idx plain
       (ask [(''field'', 1)] 2 None None)))))) = Some [(''field'', Some 3)]
   \<and> map_option l_cursor (p_next (snd (projr (snd (find_p0 plain
       (ask [(''field'', 1)] 2 None None)))))) = Some [(''field'', Some 3)]
   \<and> [(''field'', Some 3)] \<noteq> [(''field'', Some (2::int))]
   \<and> map_option l_cursor (p_next (snd (projr (snd (find_idx plain
       (follow (ask [(''field'', 1)] 2 None None) (towards 1 3))))))) = Some [(''field'', Some 5)]
   \<and> [(''field'', Some 5)] \<noteq> [(''field'', Some (4::int))]"
  by (simp add: find_idx_def find_p0_def validate_def assemble_def with_visibility_def
      filter_fields_def scan_def pop_def at_end_def cursor_def place_def towards_def follow_def
      plain_def exec_def five_def store_query_def nearest_def ask_def resolve_def Let_def primary_def
      first_def invert_def valid_spec_def valid_bound_def bounds_def admits_def skey_def
      ckey_def enc_def item_def limit_def less_prod_def less_eq_prod_def)

section \<open>Sorted rows and the store's answers\<close>

lemma distinct_map_sort_key:
  "distinct (map k (sort_key k xs)) = distinct (map k xs)"
  by (induction xs) (simp_all add: distinct_insort_key)

lemma strict_sort_key:
  fixes k :: "'a \<Rightarrow> 'b::linorder"
  assumes "distinct (map k xs)"
  shows "sorted_wrt (\<lambda>a b. k a < k b) (sort_key k xs)"
proof -
  have "sorted (map k (sort_key k xs))" by (rule sorted_sort_key)
  moreover have "distinct (map k (sort_key k xs))"
    using assms by (simp add: distinct_map_sort_key)
  ultimately have "sorted_wrt (<) (map k (sort_key k xs))"
    by (simp add: strict_sorted_iff)
  then show ?thesis by (simp add: sorted_wrt_map)
qed

lemma filter_from:
  fixes k :: "'a \<Rightarrow> 'b::linorder"
  assumes "sorted_wrt (\<lambda>a b. k a < k b) xs" and "i < length xs"
  shows "filter (\<lambda>d. k (xs ! i) \<le> k d) xs = drop i xs"
proof -
  have lo: "\<forall>x \<in> set (take i xs). \<not> k (xs ! i) \<le> k x"
  proof
    fix x assume "x \<in> set (take i xs)"
    then obtain j where "j < i" "x = xs ! j"
      using assms(2) by (auto simp: in_set_conv_nth)
    then show "\<not> k (xs ! i) \<le> k x"
      using sorted_wrt_nth_less [OF assms(1), of j i] assms(2) by (simp add: not_le)
  qed
  have hi: "\<forall>x \<in> set (drop i xs). k (xs ! i) \<le> k x"
  proof
    fix x assume "x \<in> set (drop i xs)"
    then obtain j where j: "j < length xs - i" "x = xs ! (i + j)"
      by (auto simp: in_set_conv_nth)
    show "k (xs ! i) \<le> k x"
    proof (cases "j = 0")
      case True with j show ?thesis by simp
    next
      case False
      with j sorted_wrt_nth_less [OF assms(1), of i "i + j"] show ?thesis
        by (simp add: less_imp_le less_diff_conv add.commute)
    qed
  qed
  have "filter (\<lambda>d. k (xs ! i) \<le> k d) (take i xs @ drop i xs) = drop i xs"
    unfolding filter_append using lo hi by simp
  then show ?thesis by simp
qed

lemma filter_after:
  fixes k :: "'a \<Rightarrow> 'b::linorder"
  assumes "sorted_wrt (\<lambda>a b. k a < k b) xs" and "i < length xs"
  shows "filter (\<lambda>d. k (xs ! i) < k d) xs = drop (Suc i) xs"
proof -
  have lo: "\<forall>x \<in> set (take (Suc i) xs). \<not> k (xs ! i) < k x"
  proof
    fix x assume "x \<in> set (take (Suc i) xs)"
    then obtain j where j: "j < Suc i" "x = xs ! j"
      using assms(2) by (auto simp: in_set_conv_nth)
    show "\<not> k (xs ! i) < k x"
    proof (cases "j = i")
      case True with j show ?thesis by simp
    next
      case False
      with j sorted_wrt_nth_less [OF assms(1), of j i] assms(2) show ?thesis by simp
    qed
  qed
  have hi: "\<forall>x \<in> set (drop (Suc i) xs). k (xs ! i) < k x"
  proof
    fix x assume "x \<in> set (drop (Suc i) xs)"
    then obtain j where j: "j < length xs - Suc i" "x = xs ! (Suc i + j)"
      by (auto simp: in_set_conv_nth)
    with sorted_wrt_nth_less [OF assms(1), of i "Suc i + j"] show "k (xs ! i) < k x"
      by (simp add: less_diff_conv add.commute)
  qed
  have "filter (\<lambda>d. k (xs ! i) < k d) (take (Suc i) xs @ drop (Suc i) xs) = drop (Suc i) xs"
    unfolding filter_append using lo hi by simp
  then show ?thesis by (simp only: append_take_drop_id)
qed

lemma map_of_cursor:
  "field \<in> fst ` set ix \<Longrightarrow>
   map_of (map (\<lambda>(field, v). (field, g field)) ix) field = Some (g field)"
  by (induction ix) auto

lemma ckey_cursor:
  "ckey ix (map (\<lambda>(field, v). (field, map_of d field)) ix) = skey ix d"
proof -
  have "\<And>p. p \<in> set ix \<Longrightarrow>
      map_of (map (\<lambda>(field, v). (field, map_of d field)) ix) (fst p) = Some (map_of d (fst p))"
    by (rule map_of_cursor) simp
  then show ?thesis
    by (auto simp: ckey_def skey_def)
qed

lemma fields_cursor:
  "map fst (map (\<lambda>(field, v). (field, map_of d field)) ix) = map fst ix"
  by (induction ix) auto

lemma fields_invert: "map fst (invert ix) = map fst ix"
  by (induction ix) (auto simp: invert_def)

lemma valid_invert: "valid_spec (invert ix) = valid_spec ix"
  by (induction ix) (auto simp: invert_def valid_spec_def)

lemma primary_valid:
  assumes "ix \<noteq> []" and "valid_spec ix"
  shows "primary ix = Some 1 \<or> primary ix = Some (- 1)"
proof -
  obtain f dir rest where ix: "ix = (f, dir) # rest"
    using assms(1) by (cases ix) auto
  with assms(2) have "\<bar>dir\<bar> = 1" by (simp add: valid_spec_def)
  then have "dir = 1 \<or> dir = - 1" by linarith
  with ix show ?thesis by (auto simp: primary_def first_def)
qed

lemma exec_page:
  assumes "valid_spec (r_sort rq)" and "valid_spec (r_hint rq)"
    and "valid_bound (r_hint rq) (o_min (r_options rq))"
    and "valid_bound (r_hint rq) (o_max (r_options rq))"
    and "r_select rq = None"
  shows "exec st rq =
     Inr (limit (r_limit rq)
            (filter (admits (r_hint rq) (r_options rq))
               (sort_key (skey (r_sort rq)) (filter (matches st (r_query rq)) (docs st)))))"
proof -
  have "filter (\<lambda>d. matches st (r_query rq) d \<and> admits (r_hint rq) (r_options rq) d) (docs st)
      = filter (admits (r_hint rq) (r_options rq)) (filter (matches st (r_query rq)) (docs st))"
    by (simp add: conj_commute)
  then show ?thesis using assms
    by (simp add: exec_def Let_def filter_sort)
qed

lemma resolve_forward:
  assumes "primary (s_sort s) = Some 1 \<or> primary (s_sort s) = Some (- 1)"
    and "s_direction s = None \<or> s_direction s = primary (s_sort s)"
  shows "resolve s =
     \<lparr>order = primary (s_sort s), natural = (primary (s_sort s) = Some 1),
      hint = (if primary (s_sort s) = Some 1 then s_sort s else invert (s_sort s)),
      inv = False, sorter = s_sort s\<rparr>"
  using assms by (auto simp: resolve_def Let_def)

lemma limit_take: "1 \<le> n \<Longrightarrow> limit (nearest (n + 1)) xs = take (nat (nearest (n + 1))) xs"
  using nearest_ge2 [of "n + 1"] by (simp add: limit_def)

lemma admits_none: "admits ix \<lparr>o_min = None, o_max = None\<rparr> = (\<lambda>d. True)"
  by (rule ext) (simp add: admits_def)

lemma admits_min:
  "admits ix \<lparr>o_min = Some c, o_max = None\<rparr> = (\<lambda>d. ckey ix c \<le> skey ix d)"
  by (rule ext) (simp add: admits_def)

lemma admits_max:
  "admits ix \<lparr>o_min = None, o_max = Some c\<rparr> = (\<lambda>d. skey ix d < ckey ix c)"
  by (rule ext) (simp add: admits_def)

text \<open>The store's answer at the start of a walk and at row i of it.\<close>

lemma exec_start:
  assumes "valid_spec (s_sort s)" and "s_sort s \<noteq> []"
    and "s_cursor s = None" and "s_direction s = None" and "1 \<le> s_count s"
  shows "exec st (store_query None s) =
     Inr (take (nat (nearest (s_count s + 1)))
            (sort_key (skey (s_sort s)) (filter (matches st (s_query s)) (docs st))))"
proof -
  note p = primary_valid [OF assms(2,1)]
  have r: "resolve s =
     \<lparr>order = primary (s_sort s), natural = (primary (s_sort s) = Some 1),
      hint = (if primary (s_sort s) = Some 1 then s_sort s else invert (s_sort s)),
      inv = False, sorter = s_sort s\<rparr>"
    using resolve_forward [OF p] assms(4) by simp
  have "exec st (store_query None s) =
     Inr (limit (r_limit (store_query None s))
            (filter (admits (r_hint (store_query None s)) (r_options (store_query None s)))
               (sort_key (skey (r_sort (store_query None s)))
                  (filter (matches st (r_query (store_query None s))) (docs st)))))"
    by (rule exec_page)
      (simp_all add: store_query_def Let_def r assms(1,3) valid_invert bounds_def valid_bound_def)
  then show ?thesis
    by (simp add: store_query_def Let_def r assms(3,5) bounds_def admits_none limit_take)
qed

lemma exec_resumed:
  fixes st :: "'q store" and s :: "'q search"
  assumes rows_def: "rows = sort_key (skey (s_sort s)) (filter (matches st (s_query s)) (docs st))"
    and "valid_spec (s_sort s)" and "s_sort s \<noteq> []" and "1 \<le> s_count s"
    and "distinct (map (skey (s_sort s)) (filter (matches st (s_query s)) (docs st)))"
    and "0 < i" and "i < length rows"
    and "s_direction s = primary (s_sort s)"
    and "s_cursor s = Some (map (\<lambda>(field, v). (field,
           map_of (if primary (s_sort s) = Some 1 then rows ! i else rows ! (i - 1)) field))
           (if primary (s_sort s) = Some 1 then s_sort s else invert (s_sort s)))"
  shows "exec st (store_query None s) = Inr (take (nat (nearest (s_count s + 1))) (drop i rows))"
proof -
  note p = primary_valid [OF assms(3,2)]
  have r: "resolve s =
     \<lparr>order = primary (s_sort s), natural = (primary (s_sort s) = Some 1),
      hint = (if primary (s_sort s) = Some 1 then s_sort s else invert (s_sort s)),
      inv = False, sorter = s_sort s\<rparr>"
    using resolve_forward [OF p] assms(8) by simp
  have strict: "sorted_wrt (\<lambda>a b. skey (s_sort s) a < skey (s_sort s) b) rows"
    unfolding rows_def by (rule strict_sort_key) (rule assms(5))
  have e: "exec st (store_query None s) =
     Inr (limit (r_limit (store_query None s))
            (filter (admits (r_hint (store_query None s)) (r_options (store_query None s)))
               (sort_key (skey (r_sort (store_query None s)))
                  (filter (matches st (r_query (store_query None s))) (docs st)))))"
    by (rule exec_page)
      (auto simp: store_query_def Let_def r assms(2,9) valid_invert bounds_def
        valid_bound_def)
  show ?thesis
  proof (cases "primary (s_sort s) = Some 1")
    case True
    have "filter (\<lambda>d. skey (s_sort s) (rows ! i) \<le> skey (s_sort s) d) rows = drop i rows"
      by (rule filter_from [OF strict assms(7)])
    with e True show ?thesis
      by (simp add: store_query_def Let_def r assms(4,9) bounds_def admits_min limit_take
          ckey_cursor rows_def [symmetric])
  next
    case False
    from assms(6,7) have i: "i - 1 < length rows" "Suc (i - 1) = i" by simp_all
    have "filter (\<lambda>d. skey (s_sort s) (rows ! (i - 1)) < skey (s_sort s) d) rows
        = drop (Suc (i - 1)) rows"
      by (rule filter_after [OF strict i(1)])
    with e False i(2) show ?thesis
      by (simp add: store_query_def Let_def r assms(4,9) bounds_def admits_max limit_take
          ckey_cursor skey_invert_less rows_def [symmetric])
  qed
qed

section \<open>One page of a forward walk\<close>

lemma take_Suc_last:
  assumes "n < length xs"
  shows "last (take (Suc n) xs) = xs ! n" and "butlast (take (Suc n) xs) = take n xs"
  using assms by (simp_all add: take_Suc_conv_app_nth)

lemma page_forward:
  fixes rows :: "doc list"
  assumes v: "validate env ''find'' c = Inr c" and vis: "visibles env = (\<lambda>c d. Inr (vz d))"
    and nf: "s_fields (search c) = None"
    and m: "model env (store_query None (search c)) = Inr (take (Suc N) (drop i rows))"
    and n: "nearest (s_count (search c) + 1) = int (Suc N)" and N: "1 \<le> N"
    and c1: "1 \<le> s_count (search c)"
    and r: "resolve (search c) =
             \<lparr>order = ord, natural = (ord = Some 1), hint = h, inv = False, sorter = so\<rparr>"
  shows "\<exists>pg. snd (find_idx env c) = Inr (map (\<lambda>d. vz (json env d)) (take N (drop i rows)), pg)
     \<and> p_next pg =
       (if i + N < length rows
        then Some \<lparr>l_query = queried c, l_sort = s_sort (search c),
                   l_cursor = map (\<lambda>(field, v). (field,
                      map_of (if ord = Some 1 then rows ! (i + N) else rows ! (i + N - 1)) field)) h,
                   l_direction = (if ord = Some 1 then 1 else - 1)\<rparr>
        else None)"
proof (cases "i + N < length rows")
  case True
  let ?oo = "take (Suc N) (drop i rows)"
  from True have len: "int (length ?oo) = nearest (s_count (search c) + 1)"
    using n by simp
  from True have nd: "N < length (drop i rows)" by simp
  have bl: "butlast ?oo = take N (drop i rows)" and la: "last ?oo = rows ! (i + N)"
    using take_Suc_last [OF nd] True by simp_all
  obtain N' where N': "N = Suc N'" using N by (cases N) simp_all
  with nd have "N' < length (drop i rows)" by simp
  from take_Suc_last(1) [OF this] True N'
  have la': "last (take N (drop i rows)) = rows ! (i + N - 1)" by simp
  show ?thesis
    using True
    by (simp add: find_idx_run [OF v] nf with_visibility_def m
        scan_overflow [OF len c1] r place_def vis eachSeries_Inr bl la la')
next
  case False
  from False have len: "int (length (drop i rows)) \<noteq> nearest (s_count (search c) + 1)"
    using n by simp
  from False have all: "take (Suc N) (drop i rows) = drop i rows"
    "take N (drop i rows) = drop i rows" by simp_all
  have m': "model env (store_query None (search c)) = Inr (drop i rows)"
    using m all(1) by simp
  show ?thesis
    using False
    by (simp add: find_idx_run [OF v] nf with_visibility_def m' all(2)
        scan_short [OF len] r place_def vis eachSeries_Inr)
qed

lemma follow_resume:
  assumes "queried c = s_query (search c)"
  shows "follow (resume c cu di)
           \<lparr>l_query = queried (resume c cu di), l_sort = s_sort (search (resume c cu di)),
            l_cursor = cu', l_direction = d'\<rparr>
         = resume c (Some cu') (Some d')"
  using assms by (cases c) (simp add: follow_def resume_def)

lemma take_drop_next: "take n (drop i xs) @ drop (i + n) xs = drop i xs"
proof -
  have "drop (i + n) xs = drop n (drop i xs)" by (simp add: add.commute)
  then show ?thesis by (simp only: append_take_drop_id)
qed

lemma walk_forward:
  fixes st :: "'q store" and c :: "'q ctx"
  defines "rows \<equiv> sort_key (skey (s_sort (search c)))
                    (filter (matches st (s_query (search c))) (docs st))"
  assumes mo: "model env = exec st" and vis: "visibles env = (\<lambda>c d. Inr (vz d))"
    and v: "validated c \<or> validators env ''find'' = Inr"
    and q: "queried c = s_query (search c)"
    and nf: "s_fields (search c) = None" and n: "1 \<le> s_count (search c)"
    and ne: "s_sort (search c) \<noteq> []" and va: "valid_spec (s_sort (search c))"
    and di: "distinct (map (skey (s_sort (search c)))
                          (filter (matches st (s_query (search c))) (docs st)))"
  shows "length rows - i < m \<Longrightarrow>
     (i = 0 \<and> cu = None \<and> dr = None)
     \<or> (0 < i \<and> i < length rows \<and> dr = primary (s_sort (search c))
         \<and> cu = Some (map (\<lambda>(field, v). (field,
               map_of (if primary (s_sort (search c)) = Some 1 then rows ! i
                       else rows ! (i - 1)) field))
               (if primary (s_sort (search c)) = Some 1 then s_sort (search c)
                else invert (s_sort (search c))))) \<Longrightarrow>
     walk (\<lambda>c. snd (find_idx env c)) m (resume c cu dr)
       = Some (Inr (map (\<lambda>d. vz (json env d)) (drop i rows)))"
proof (induction m arbitrary: i cu dr)
  case 0
  then show ?case by simp
next
  case (Suc m)
  let ?c = "resume c cu dr"
  let ?s = "search ?c"
  define N where "N = nat (nearest (s_count (search c) + 1)) - 1"
  let ?srt = "s_sort (search c)"
  let ?h = "if primary ?srt = Some 1 then ?srt else invert ?srt"
  note p = primary_valid [OF ne va]
  have s: "s_sort ?s = ?srt" "s_query ?s = s_query (search c)" "s_count ?s = s_count (search c)"
    "s_fields ?s = None" "s_cursor ?s = cu" "s_direction ?s = dr"
    "validate env ''find'' ?c = Inr ?c" "queried ?c = queried c"
    using nf v by (auto simp: resume_def validate_def)
  have Nf: "nearest (s_count ?s + 1) = int (Suc N)" "1 \<le> N" "1 \<le> s_count ?s"
    "nat (nearest (s_count ?s + 1)) = Suc N"
    "nat (nearest (s_count (search c) + 1)) = Suc N"
    using n nearest_ge2 [of "s_count (search c) + 1"] by (simp_all add: s(3) N_def)
  have dir: "s_direction ?s = None \<or> s_direction ?s = primary (s_sort ?s)"
    using Suc.prems(2) s by auto
  have r: "resolve ?s =
      \<lparr>order = primary ?srt, natural = (primary ?srt = Some 1), hint = ?h, inv = False,
       sorter = ?srt\<rparr>"
    using resolve_forward [of ?s] p dir s(1) by simp
  have ex: "exec st (store_query None ?s) = Inr (take (Suc N) (drop i rows))"
  proof (cases "i = 0")
    case True
    with Suc.prems(2) have "cu = None" "dr = None" by auto
    with exec_start [of ?s st] va ne n s True show ?thesis
      by (simp add: rows_def Nf(5))
  next
    case False
    with Suc.prems(2) have st: "0 < i" "i < length rows" "dr = primary ?srt"
      "cu = Some (map (\<lambda>(field, v). (field,
               map_of (if primary ?srt = Some 1 then rows ! i else rows ! (i - 1)) field)) ?h)"
      by auto
    have a: "rows = sort_key (skey (s_sort ?s)) (filter (matches st (s_query ?s)) (docs st))"
      "valid_spec (s_sort ?s)" "s_sort ?s \<noteq> []" "1 \<le> s_count ?s"
      "distinct (map (skey (s_sort ?s)) (filter (matches st (s_query ?s)) (docs st)))"
      using va ne n di by (simp_all add: s rows_def)
    have b: "s_direction ?s = primary (s_sort ?s)"
      unfolding s by (rule st(3))
    have b': "s_cursor ?s = Some (map (\<lambda>(field, v). (field,
           map_of (if primary (s_sort ?s) = Some 1 then rows ! i else rows ! (i - 1)) field))
           (if primary (s_sort ?s) = Some 1 then s_sort ?s else invert (s_sort ?s)))"
      unfolding s by (rule st(4))
    from exec_resumed [OF a st(1,2) b b'] show ?thesis by (simp only: Nf(4))
  qed
  then have m: "model env (store_query None ?s) = Inr (take (Suc N) (drop i rows))"
    by (simp add: mo)
  from page_forward [OF s(7) vis s(4) m Nf(1,2,3) r]
  obtain pg where pg: "snd (find_idx env ?c)
        = Inr (map (\<lambda>d. vz (json env d)) (take N (drop i rows)), pg)"
    and nx: "p_next pg =
       (if i + N < length rows
        then Some \<lparr>l_query = queried ?c, l_sort = s_sort ?s,
                   l_cursor = map (\<lambda>(field, v). (field,
                      map_of (if primary ?srt = Some 1 then rows ! (i + N)
                              else rows ! (i + N - 1)) field)) ?h,
                   l_direction = (if primary ?srt = Some 1 then 1 else - 1)\<rparr>
        else None)"
    by blast
  show ?case
  proof (cases "i + N < length rows")
    case False
    then have "take N (drop i rows) = drop i rows" by simp
    with pg nx False show ?thesis by simp
  next
    case True
    let ?cu' = "map (\<lambda>(field, v). (field,
                      map_of (if primary ?srt = Some 1 then rows ! (i + N)
                              else rows ! (i + N - 1)) field)) ?h"
    let ?d' = "if primary ?srt = Some 1 then 1 else - 1 :: int"
    have fo: "follow ?c \<lparr>l_query = queried ?c, l_sort = s_sort ?s, l_cursor = ?cu',
                l_direction = ?d'\<rparr> = resume c (Some ?cu') (Some ?d')"
      by (rule follow_resume [OF q])
    have d': "Some ?d' = primary ?srt" using p by auto
    have "length rows - (i + N) < m" using Suc.prems(1) True Nf(2) by linarith
    moreover have "(i + N = 0 \<and> Some ?cu' = None \<and> Some ?d' = None)
     \<or> (0 < i + N \<and> i + N < length rows \<and> Some ?d' = primary ?srt
         \<and> Some ?cu' = Some (map (\<lambda>(field, v). (field,
               map_of (if primary ?srt = Some 1 then rows ! (i + N)
                       else rows ! (i + N - 1)) field)) ?h))"
      using True Nf(2) d' n by simp
    ultimately have "walk (\<lambda>c. snd (find_idx env c)) m (resume c (Some ?cu') (Some ?d'))
       = Some (Inr (map (\<lambda>d. vz (json env d)) (drop (i + N) rows)))"
      by (rule Suc.IH)
    with pg nx True fo show ?thesis
      by (simp add: take_drop_next map_append [symmetric] del: map_append)
  qed
qed

lemma resume_same:
  "s_cursor (search c) = None \<Longrightarrow> s_direction (search c) = None \<Longrightarrow> resume c None None = c"
  by (cases c) (simp add: resume_def)

section \<open>The exhaustive forward walk\<close>

text \<open>
  C1, as the code has it. Take a finite store read with an inclusive \<open>min\<close> and an
  exclusive \<open>max\<close>, a filter, a count of at least 1 and a sort whose orders are \<open>1\<close>
  or \<open>-1\<close> and whose fields give different keys to different matching records (a
  trailing identity field does). Start \<open>find\<close> without cursor, direction and
  projection and issue the \<open>next\<close> link of every page until it is \<open>null\<close>. Then
  the walk ends, after no more pages than the store has documents plus one, and the
  records of its pages, one after the other, are exactly the matching records in the
  order of the sort, each one passed through \<open>utils.json\<close> and \<open>utils.visibles\<close>
  (which is taken not to fail).
\<close>

theorem forward_walk:
  assumes "model env = exec st" and "visibles env = (\<lambda>c d. Inr (vz d))"
    and "validated c \<or> validators env ''find'' = Inr"
    and "queried c = s_query (search c)"
    and "s_cursor (search c) = None" and "s_direction (search c) = None"
    and "s_fields (search c) = None" and "1 \<le> s_count (search c)"
    and "s_sort (search c) \<noteq> []" and "valid_spec (s_sort (search c))"
    and "distinct (map (skey (s_sort (search c)))
                     (filter (matches st (s_query (search c))) (docs st)))"
    and "length (docs st) < m"
  shows "walk (\<lambda>c. snd (find_idx env c)) m c =
     Some (Inr (map (\<lambda>d. vz (json env d))
                  (sort_key (skey (s_sort (search c)))
                     (filter (matches st (s_query (search c))) (docs st)))))"
proof -
  let ?rows = "sort_key (skey (s_sort (search c)))
                 (filter (matches st (s_query (search c))) (docs st))"
  have fuel: "length ?rows - 0 < m"
    using le_less_trans [OF length_filter_le assms(12)] by simp
  have "walk (\<lambda>c. snd (find_idx env c)) m (resume c None None)
       = Some (Inr (map (\<lambda>d. vz (json env d)) (drop 0 ?rows)))"
    by (rule walk_forward [OF assms(1,2,3,4,7,8,9,10,11) fuel]) simp
  then show ?thesis by (simp add: resume_same [OF assms(5,6)])
qed

theorem forward_walk_witness:
  "distinct (map (skey [(''field'', - 1), (''_id'', - 1)]) (filter (matches twins 0) (docs twins)))
   \<and> walk (\<lambda>c. snd (find_idx plain_twins c)) 5
        (ask [(''field'', - 1), (''_id'', - 1)] 2 None None) =
       Some (Inr [twin 4 3, twin 3 2, twin 2 2, twin 1 1])"
proof -
  let ?c = "ask [(''field'', - 1), (''_id'', - 1)] 2 None None"
  have a: "model plain_twins = exec twins" "visibles plain_twins = (\<lambda>c d. Inr ((\<lambda>d. d) d))"
    by (simp_all add: plain_twins_def)
  have b: "validated ?c \<or> validators plain_twins ''find'' = Inr"
    "queried ?c = s_query (search ?c)" "s_cursor (search ?c) = None"
    "s_direction (search ?c) = None" "s_fields (search ?c) = None" "1 \<le> s_count (search ?c)"
    "s_sort (search ?c) \<noteq> []" "valid_spec (s_sort (search ?c))"
    by (simp_all add: ask_def valid_spec_def)
  have sq: "s_sort (search ?c) = [(''field'', - 1), (''_id'', - 1)]" "s_query (search ?c) = 0"
    by (simp_all add: ask_def)
  have d: "distinct (map (skey [(''field'', - 1), (''_id'', - 1)])
                      (filter (matches twins 0) (docs twins)))"
    by (simp add: twins_def twin_def skey_def enc_def)
  then have d': "distinct (map (skey (s_sort (search ?c)))
                     (filter (matches twins (s_query (search ?c))) (docs twins)))"
    by (simp only: sq)
  have l: "length (docs twins) < 5" by (simp add: twins_def)
  have rows: "sort_key (skey [(''field'', - 1), (''_id'', - 1)])
                 (filter (matches twins 0) (docs twins))
      = [twin 4 3, twin 3 2, twin 2 2, twin 1 1]"
    by (simp add: twins_def twin_def skey_def enc_def less_prod_def less_eq_prod_def)
  have j: "json plain_twins = (\<lambda>d. d)" by (simp add: plain_twins_def)
  from forward_walk [OF a b d' l]
  have "walk (\<lambda>c. snd (find_idx plain_twins c)) 5 ?c =
       Some (Inr [twin 4 3, twin 3 2, twin 2 2, twin 1 1])"
    by (simp only: sq rows j list.map_ident)
  with d show ?thesis by blast
qed

text \<open>
  C1 as the spec words it fails for a sort that leaves a tie: with the single field
  \<open>field\<close> and two records of value 2, the cursor of page 1 is \<open>{field: 2}\<close>, page 2
  starts again at the first of the two, and that record is visited twice.
\<close>

theorem forward_walk_counterexample:
  "filter (matches twins 0) (docs twins) = [twin 1 1, twin 2 2, twin 3 2, twin 4 3]
   \<and> walk (\<lambda>c. snd (find_idx plain_twins c)) 5 (ask [(''field'', 1)] 2 None None) =
       Some (Inr [twin 1 1, twin 2 2, twin 2 2, twin 3 2, twin 4 3])"
  by (simp add: find_idx_def validate_def assemble_def with_visibility_def filter_fields_def
      scan_def pop_def at_end_def cursor_def place_def follow_def exec_def store_query_def nearest_def
      ask_def resolve_def Let_def primary_def first_def invert_def valid_spec_def
      valid_bound_def bounds_def admits_def skey_def ckey_def enc_def limit_def less_prod_def
      less_eq_prod_def twins_def twin_def plain_twins_def eval_nat_numeral)

end
